theory Spec2Isabelle
  imports Main "HOL-Library.AList"
begin

section \<open>Prototype's event subsystem (src/prototype/dom/event.js)\<close>

text \<open>
  A shallow embedding of the event registry, the responder factory, \<open>observe\<close>,
  \<open>stopObserving\<close>, \<open>fire\<close> and the delegation handler \<open>Event.Handler\<close>/\<open>on\<close>.

  The JavaScript state the code touches is made explicit in the record \<open>state\<close>:
  \<open>Event.cache\<close>, the counter \<open>Element.Storage.UID\<close>, the expando \<open>_prototypeUID\<close>
  of every node, and the host's listener lists (what \<open>addEventListener\<close> and
  \<open>removeEventListener\<close> maintain). The document itself (ancestor chains, node
  types, selector matching) is a parameter of type \<open>platform\<close>.

  User handlers are opaque function references. Invoking one is recorded as a \<open>call\<close>;
  what the handler's body does is outside the model, so a handler that itself calls
  \<open>observe\<close> or \<open>stopObserving\<close> while an event is being dispatched is not covered.
  The \<open>element\<close> argument of every operation is a node: \<open>$\<close> returns a node
  argument unchanged, and the lookup of a string id is left out.
\<close>

subsection \<open>Values\<close>

datatype error = TypeError | SyntaxError

datatype node = Window | Document | Elem nat

text \<open>The values a memo can be; \<open>JEmptyObject\<close> is the literal \<open>{}\<close> that \<open>fire\<close> creates.\<close>

datatype jsval =
  JUndefined | JNull | JBool bool | JNum int | JNaN | JStr string | JObj nat | JEmptyObject

fun truthy :: "jsval \<Rightarrow> bool" where
  "truthy JUndefined = False"
| "truthy JNull = False"
| "truthy (JBool b) = b"
| "truthy (JNum n) = (n \<noteq> 0)"
| "truthy JNaN = False"
| "truthy (JStr s) = (s \<noteq> [])"
| "truthy (JObj k) = True"
| "truthy JEmptyObject = True"

text \<open>
  The third argument of \<open>on\<close> and the \<open>selector\<close> field of an \<open>Event.Handler\<close>:
  absent (\<open>undefined\<close> or \<open>null\<close>), a CSS selector string, or a function.
\<close>

datatype selector = NoSelector | Css string | FnSelector nat

text \<open>
  An \<open>Event.Handler\<close> instance. \<open>h_oid\<close> is the identity of the object: its field
  \<open>handler\<close> is \<open>this.handleEvent.bind(this)\<close>, a function object of its own for each
  instance, modelled as \<open>HandleEvent\<close> applied to the instance.
\<close>

record evhandler =
  h_oid :: nat
  h_element :: node
  h_eventName :: string
  h_selector :: selector
  h_callback :: "nat option"

datatype handler = Fn nat | HandleEvent evhandler

text \<open>
  The two closures of the responder factory. Each captures the uid, the event name and
  the handler, never the node; the first field is the identity of the closure object
  (\<open>addEventListener\<close> and \<open>removeEventListener\<close> compare listeners by identity).
\<close>

datatype responder =
  NativeResponder nat nat string handler
| CustomResponder nat nat string handler

fun r_id :: "responder \<Rightarrow> nat" where
  "r_id (NativeResponder k u en h) = k"
| "r_id (CustomResponder k u en h) = k"

fun r_uid :: "responder \<Rightarrow> nat" where
  "r_uid (NativeResponder k u en h) = u"
| "r_uid (CustomResponder k u en h) = u"

fun r_eventName :: "responder \<Rightarrow> string" where
  "r_eventName (NativeResponder k u en h) = en"
| "r_eventName (CustomResponder k u en h) = en"

fun r_handler :: "responder \<Rightarrow> handler" where
  "r_handler (NativeResponder k u en h) = h"
| "r_handler (CustomResponder k u en h) = h"

text \<open>The entry \<open>{ responder, handler }\<close> that \<open>register\<close> pushes.\<close>

record binding =
  b_responder :: responder
  b_handler :: handler

text \<open>
  A registry is the object \<open>CACHE[uid]\<close>: the property \<open>element\<close> holds the node and
  every other property holds the array of entries of one event name. Both live in the
  same object, so the model keeps one association list (in insertion order) whose
  values are either a node or an array.
\<close>

datatype slot = Element node | Entries "binding list"

type_synonym registry = "(string \<times> slot) list"

text \<open>
  A registry is a plain object, so reading \<open>registry[name]\<close> also finds what the
  object inherits from \<open>Object.prototype\<close>. \<open>objectPrototype name\<close> is \<open>Some l\<close> when
  \<open>Object.prototype\<close> has a member of that name, \<open>l\<close> being the member's \<open>length\<close>
  property: a function has the number of its parameters as \<open>length\<close>, and the object
  that \<open>__proto__\<close> gives has none. No member is an array, and reading \<open>member[i]\<close>
  gives \<open>undefined\<close>.
\<close>

definition objectPrototype :: "string \<Rightarrow> nat option option" where
  "objectPrototype =
     map_of [(''constructor'', Some 1), (''hasOwnProperty'', Some 1),
             (''isPrototypeOf'', Some 1), (''propertyIsEnumerable'', Some 1),
             (''toLocaleString'', Some 0), (''toString'', Some 0), (''valueOf'', Some 0),
             (''__defineGetter__'', Some 2), (''__defineSetter__'', Some 2),
             (''__lookupGetter__'', Some 1), (''__lookupSetter__'', Some 1),
             (''__proto__'', None)]"

text \<open>
  The value of \<open>registry[name]\<close>: an own property of the registry, or else a member
  inherited from \<open>Object.prototype\<close>, or else \<open>undefined\<close>.
\<close>

datatype property = Undefined | Own slot | Inherited "nat option"

definition prop_of :: "registry \<Rightarrow> string \<Rightarrow> property" where
  "prop_of registry name =
     (case map_of registry name of
        Some sl \<Rightarrow> Own sl
      | None \<Rightarrow> (case objectPrototype name of Some l \<Rightarrow> Inherited l | None \<Rightarrow> Undefined))"

record state =
  cache :: "nat \<Rightarrow> registry option"
  UID :: nat
  prototypeUID :: "node \<Rightarrow> nat option"
  listeners :: "node \<Rightarrow> (string \<times> responder) list"
  fresh :: nat

text \<open>
  \<open>GLOBAL.Event.cache = {}\<close> and \<open>Element.Storage = { UID: 1 }\<close>; no node carries a uid
  and no listener is attached. \<open>fresh\<close> numbers the function objects created so far.
\<close>

definition init :: state where
  "init = \<lparr> cache = Map.empty, UID = 1, prototypeUID = Map.empty,
            listeners = (\<lambda>n. []), fresh = 0 \<rparr>"

text \<open>
  The document. \<open>ancestors p n\<close> is the chain \<open>n.parentNode\<close>, \<open>n.parentNode.parentNode\<close>,
  ... up to the node whose \<open>parentNode\<close> is \<open>null\<close>; a loop that follows \<open>parentNode\<close>
  until it is \<open>null\<close> visits \<open>n # ancestors p n\<close>. \<open>isElement\<close> is \<open>Object.isElement\<close>,
  \<open>matches\<close> is \<open>element.matches(selector)\<close>, \<open>typeProp\<close> and \<open>lengthProp\<close> are the
  properties \<open>type\<close> and \<open>length\<close> of a node (\<open>None\<close> for \<open>undefined\<close>).
\<close>

record platform =
  ancestors :: "node \<Rightarrow> node list"
  nodeType :: "node \<Rightarrow> nat"
  tagName :: "node \<Rightarrow> string option"
  typeProp :: "node \<Rightarrow> string option"
  lengthProp :: "node \<Rightarrow> nat option"
  isElement :: "node \<Rightarrow> bool"
  matches :: "node \<Rightarrow> string \<Rightarrow> bool"
  createEvent :: bool
  documentDispatchEvent :: bool
  documentElement :: node

definition parentNode :: "platform \<Rightarrow> node \<Rightarrow> node option" where
  "parentNode p n = (case ancestors p n of [] \<Rightarrow> None | a # as \<Rightarrow> Some a)"

record event =
  ev_type :: string
  ev_target :: node
  ev_currentTarget :: "node option"
  ev_bubbles :: bool
  ev_cancelable :: bool
  ev_eventName :: "string option"
  ev_memo :: jsval

text \<open>
  One invocation of a user function: \<open>c_this\<close> is its context (\<open>None\<close> for
  \<open>undefined\<close>), \<open>c_event\<close> its first argument and \<open>c_element\<close> its second argument,
  if it was given one.
\<close>

record call =
  c_fn :: nat
  c_this :: "slot option"
  c_event :: event
  c_element :: "node option"

subsection \<open>Event.element and Event.findElement\<close>

definition lower_char :: "char \<Rightarrow> char" where
  "lower_char c =
     (let k = (of_char c :: nat) in if 65 \<le> k \<and> k \<le> 90 then char_of (k + 32) else c)"

definition toLowerCase :: "string \<Rightarrow> string" where
  "toLowerCase str = map lower_char str"

text \<open>The private \<open>_element\<close>; \<open>Node.TEXT_NODE\<close> is 3.\<close>

definition element_impl :: "platform \<Rightarrow> event \<Rightarrow> node option" where
  "element_impl p ev =
     (let node0 = ev_target ev;
          type = ev_type ev;
          node1 =
            (case ev_currentTarget ev of
               None \<Rightarrow> node0
             | Some ct \<Rightarrow>
                 (case tagName p ct of
                    None \<Rightarrow> node0
                  | Some tn \<Rightarrow>
                      if tn \<noteq> [] \<and>
                         (type = ''load'' \<or> type = ''error'' \<or>
                          (type = ''click'' \<and> toLowerCase tn = ''input''
                             \<and> typeProp p ct = Some ''radio''))
                      then ct else node0))
      in if nodeType p node1 = 3 then parentNode p node1 else Some node1)"

text \<open>
  \<open>findElement\<close>: without an expression the element itself; otherwise the first node
  of the chain \<open>element, element.parentNode, ...\<close> that is an element and matches. A
  function in the place of the expression is turned into its source text by
  \<open>matches\<close>, which is no selector: \<open>matches\<close> throws on the first element it is asked.
\<close>

definition findElement :: "platform \<Rightarrow> event \<Rightarrow> selector \<Rightarrow> error + node option" where
  "findElement p ev expression =
     (let element = element_impl p ev in
      case expression of
        NoSelector \<Rightarrow> Inr element
      | Css e \<Rightarrow>
          if e = [] then Inr element
          else (case element of
                  None \<Rightarrow> Inr None
                | Some el \<Rightarrow>
                    Inr (find (\<lambda>x. isElement p x \<and> matches p x e) (el # ancestors p el)))
      | FnSelector f \<Rightarrow>
          (case element of
             None \<Rightarrow> Inr None
           | Some el \<Rightarrow>
               if list_ex (isElement p) (el # ancestors p el) then Inl SyntaxError
               else Inr None))"

subsection \<open>Identity and registry\<close>

definition getUniqueElementID :: "state \<Rightarrow> node \<Rightarrow> state \<times> nat" where
  "getUniqueElementID s element =
     (if element = Window then (s, 0)
      else case prototypeUID s element of
             None \<Rightarrow>
               (s\<lparr> prototypeUID := (prototypeUID s)(element \<mapsto> UID s), UID := UID s + 1 \<rparr>,
                UID s)
           | Some u \<Rightarrow> (s, u))"

definition isCustomEvent :: "string \<Rightarrow> bool" where
  "isCustomEvent eventName = (CHR '':'' \<in> set eventName)"

definition getOrCreateRegistryFor :: "state \<Rightarrow> node \<Rightarrow> nat option \<Rightarrow> state \<times> registry" where
  "getOrCreateRegistryFor s element uid_opt =
     (let (s1, uid) = (case uid_opt of None \<Rightarrow> getUniqueElementID s element | Some u \<Rightarrow> (s, u))
      in case cache s1 uid of
           None \<Rightarrow>
             (s1\<lparr> cache := (cache s1)(uid \<mapsto> [(''element'', Element element)]) \<rparr>,
              [(''element'', Element element)])
         | Some registry \<Rightarrow> (s1, registry))"

definition destroyRegistryForElement :: "state \<Rightarrow> node \<Rightarrow> nat option \<Rightarrow> state" where
  "destroyRegistryForElement s element uid_opt =
     (let (s1, uid) = (case uid_opt of None \<Rightarrow> getUniqueElementID s element | Some u \<Rightarrow> (s, u))
      in s1\<lparr> cache := (cache s1)(uid := None) \<rparr>)"

subsection \<open>The responder factory\<close>

definition createResponderForCustomEvent :: "nat \<Rightarrow> nat \<Rightarrow> string \<Rightarrow> handler \<Rightarrow> responder" where
  "createResponderForCustomEvent k uid eventName handler = CustomResponder k uid eventName handler"

definition createResponder :: "nat \<Rightarrow> nat \<Rightarrow> string \<Rightarrow> handler \<Rightarrow> responder" where
  "createResponder k uid eventName handler =
     (if isCustomEvent eventName then createResponderForCustomEvent k uid eventName handler
      else NativeResponder k uid eventName handler)"

text \<open>
  \<open>Event.Handler#handleEvent\<close>: the callback is called with the handler's element as
  context, and with the event and the element found.
\<close>

definition handleEvent :: "platform \<Rightarrow> evhandler \<Rightarrow> event \<Rightarrow> error + call list" where
  "handleEvent p this ev =
     (case findElement p ev (h_selector this) of
        Inl e \<Rightarrow> Inl e
      | Inr None \<Rightarrow> Inr []
      | Inr (Some el) \<Rightarrow>
          (case h_callback this of
             None \<Rightarrow> Inl TypeError
           | Some cb \<Rightarrow>
               Inr [\<lparr> c_fn = cb, c_this = Some (Element (h_element this)), c_event = ev,
                      c_element = Some el \<rparr>]))"

text \<open>
  \<open>handler.call(element, event)\<close>: a user function is called; the bound
  \<open>handleEvent\<close> of a delegation handler ignores the context and runs.
\<close>

definition call_handler :: "platform \<Rightarrow> handler \<Rightarrow> slot option \<Rightarrow> event \<Rightarrow> error + call list" where
  "call_handler p h this ev =
     (case h of
        Fn f \<Rightarrow> Inr [\<lparr> c_fn = f, c_this = this, c_event = ev, c_element = None \<rparr>]
      | HandleEvent obj \<Rightarrow> handleEvent p obj ev)"

text \<open>
  The bodies of the two closures, run on \<open>Event.cache\<close> as it is when the event
  arrives (\<open>None\<close> when \<open>Event.cache\<close> itself is missing). Reading a property of
  \<open>undefined\<close> is a \<open>TypeError\<close>.
\<close>

definition invoke_responder ::
  "(nat \<Rightarrow> registry option) option \<Rightarrow> platform \<Rightarrow> responder \<Rightarrow> event \<Rightarrow> error + call list" where
  "invoke_responder CACHE p r ev =
     (case r of
        NativeResponder k uid eventName handler \<Rightarrow>
          (case CACHE of
             None \<Rightarrow> Inr []
           | Some c \<Rightarrow>
               (case c uid of
                  None \<Rightarrow> Inl TypeError
                | Some registry \<Rightarrow> call_handler p handler (map_of registry ''element'') ev))
      | CustomResponder k uid eventName handler \<Rightarrow>
          (case CACHE of
             None \<Rightarrow> Inl TypeError
           | Some c \<Rightarrow>
               (let element = (case c uid of None \<Rightarrow> None
                               | Some registry \<Rightarrow> map_of registry ''element'')
                in if ev_eventName ev = None then Inr []
                   else if ev_eventName ev \<noteq> Some eventName then Inr []
                   else call_handler p handler element ev)))"

subsection \<open>register and unregister\<close>

text \<open>
  \<open>registry\<close> is the object \<open>CACHE[uid]\<close> itself, so what \<open>register\<close> and \<open>unregister\<close>
  do to it is written back under the uid. When \<open>registry[eventName]\<close> is the node (the
  event name is \<open>element\<close>) or a member of \<open>Object.prototype\<close>, it is truthy and no
  array is put in its place: the loop reads \<open>entries[i].handler\<close> of \<open>undefined\<close>, or
  else \<open>entries.push\<close> is not a function. Either way \<open>register\<close> throws.
\<close>

definition register :: "state \<Rightarrow> node \<Rightarrow> string \<Rightarrow> handler \<Rightarrow> error + state \<times> binding option" where
  "register s element eventName handler =
     (let (s1, registry0) = getOrCreateRegistryFor s element None;
          uid = snd (getUniqueElementID s1 element);
          registry =
            (if prop_of registry0 eventName = Undefined
             then AList.update eventName (Entries []) registry0 else registry0)
      in case prop_of registry eventName of
           Own (Entries entries) \<Rightarrow>
             if list_ex (\<lambda>e. b_handler e = handler) (rev entries)
             then Inr (s1\<lparr> cache := (cache s1)(uid \<mapsto> registry) \<rparr>, None)
             else
               (let responder = createResponder (fresh s1) uid eventName handler;
                    entry = \<lparr> b_responder = responder, b_handler = handler \<rparr>
                in Inr (s1\<lparr> cache := (cache s1)(uid \<mapsto>
                              AList.update eventName (Entries (entries @ [entry])) registry),
                            fresh := fresh s1 + 1 \<rparr>,
                        Some entry))
         | _ \<Rightarrow> Inl TypeError)"

text \<open>
  \<open>unregister\<close>. \<open>entries\<close> is \<open>registry[eventName] || []\<close>. The loop finds the last
  entry with the handler, \<open>indexOf\<close> and \<open>splice\<close> remove that object. When
  \<open>registry[eventName]\<close> is the node, no entry is found and \<open>entries.length\<close> is the
  node's own \<open>length\<close> property. When it is a member of \<open>Object.prototype\<close> with a
  positive \<open>length\<close>, the loop reads \<open>entries[i].handler\<close> of \<open>undefined\<close> and throws;
  with \<open>length\<close> 0 or none the loop is skipped, and \<open>delete registry[eventName]\<close>
  removes no own property.
\<close>

definition unregister ::
  "platform \<Rightarrow> state \<Rightarrow> node \<Rightarrow> string \<Rightarrow> handler \<Rightarrow> error + state \<times> binding option" where
  "unregister p s element eventName handler =
     (let (s1, registry) = getOrCreateRegistryFor s element None;
          uid = snd (getUniqueElementID s1 element);
          found =
            (case prop_of registry eventName of
               Own (Entries entries) \<Rightarrow> find (\<lambda>e. b_handler e = handler) (rev entries)
             | _ \<Rightarrow> None);
          registry1 =
            (case (prop_of registry eventName, found) of
               (Own (Entries entries), Some entry) \<Rightarrow>
                 AList.update eventName (Entries (remove1 entry entries)) registry
             | _ \<Rightarrow> registry);
          len =
            (case prop_of registry1 eventName of
               Undefined \<Rightarrow> Some 0
             | Own (Entries entries) \<Rightarrow> Some (length entries)
             | Own (Element n) \<Rightarrow> lengthProp p n
             | Inherited l \<Rightarrow> l)
      in if (case prop_of registry eventName of Inherited (Some k) \<Rightarrow> 0 < k | _ \<Rightarrow> False)
         then Inl TypeError
         else if len = Some 0
         then
           (let registry2 = AList.delete eventName registry1;
                s2 = s1\<lparr> cache := (cache s1)(uid \<mapsto> registry2) \<rparr>
            in if length (map fst registry2) = 1 \<and> ''element'' \<in> set (map fst registry2)
               then Inr (destroyRegistryForElement s2 element None, found)
               else Inr (s2, found))
         else Inr (s1\<lparr> cache := (cache s1)(uid \<mapsto> registry1) \<rparr>, found))"

subsection \<open>The host's listener lists\<close>

text \<open>
  \<open>addEventListener(type, listener, false)\<close> appends unless the same listener is
  already attached for the type; \<open>removeEventListener\<close> removes it if it is there.
\<close>

definition addEventListener :: "state \<Rightarrow> node \<Rightarrow> string \<Rightarrow> responder \<Rightarrow> state" where
  "addEventListener s element type r =
     (if (type, r) \<in> set (listeners s element) then s
      else s\<lparr> listeners := (listeners s)(element := listeners s element @ [(type, r)]) \<rparr>)"

definition removeEventListener :: "state \<Rightarrow> node \<Rightarrow> string \<Rightarrow> responder \<Rightarrow> state" where
  "removeEventListener s element type r =
     s\<lparr> listeners := (listeners s)(element := remove1 (type, r) (listeners s element)) \<rparr>"

definition removeEvent :: "state \<Rightarrow> node \<Rightarrow> string \<Rightarrow> responder \<Rightarrow> state" where
  "removeEvent s element eventName handler =
     (let actualEventName = (if isCustomEvent eventName then ''dataavailable'' else eventName)
      in removeEventListener s element actualEventName handler)"

subsection \<open>observe and stopObserving\<close>

definition observe :: "state \<Rightarrow> node \<Rightarrow> string \<Rightarrow> handler \<Rightarrow> error + state \<times> node" where
  "observe s element eventName handler =
     (case register s element eventName handler of
        Inl e \<Rightarrow> Inl e
      | Inr (s1, None) \<Rightarrow> Inr (s1, element)
      | Inr (s1, Some entry) \<Rightarrow>
          (let responder = b_responder entry;
               actualEventName = (if isCustomEvent eventName then ''dataavailable'' else eventName)
           in Inr (addEventListener s1 element actualEventName responder, element)))"

text \<open>The entries of a slot, as the loops \<open>i = entries.length; while (i--)\<close> see them.\<close>

fun entries_of :: "slot \<Rightarrow> binding list" where
  "entries_of (Entries es) = es"
| "entries_of (Element n) = []"

definition removeEvents :: "state \<Rightarrow> node \<Rightarrow> string \<Rightarrow> binding list \<Rightarrow> state" where
  "removeEvents s element eventName entries =
     fold (\<lambda>e s'. removeEvent s' element eventName (b_responder e)) (rev entries) s"

definition stopObservingElement :: "state \<Rightarrow> node \<Rightarrow> state" where
  "stopObservingElement s element =
     (let (s1, uid) = getUniqueElementID s element
      in case cache s1 uid of
           None \<Rightarrow> s1
         | Some registry \<Rightarrow>
             fold (\<lambda>(eventName, sl) s'.
                     if eventName = ''element'' then s'
                     else removeEvents s' element eventName (entries_of sl))
                  registry (destroyRegistryForElement s1 element (Some uid)))"

text \<open>
  \<open>stopObservingEventName\<close>. When \<open>registry[eventName]\<close> is a member of
  \<open>Object.prototype\<close> it is truthy: with a positive \<open>length\<close> the loop reads
  \<open>entries[i].responder\<close> of \<open>undefined\<close> and throws, otherwise the loop is skipped and
  \<open>delete\<close> removes no own property.
\<close>

definition stopObservingEventName :: "state \<Rightarrow> node \<Rightarrow> string \<Rightarrow> error + state" where
  "stopObservingEventName s element eventName =
     (let (s1, registry) = getOrCreateRegistryFor s element None;
          uid = snd (getUniqueElementID s1 element);
          (s2, registry1) =
            (case prop_of registry eventName of
               Own sl \<Rightarrow>
                 (let registry' = AList.delete eventName registry
                  in (removeEvents (s1\<lparr> cache := (cache s1)(uid \<mapsto> registry') \<rparr>)
                        element eventName (entries_of sl),
                      registry'))
             | _ \<Rightarrow> (s1, registry))
      in if (case prop_of registry eventName of Inherited (Some k) \<Rightarrow> 0 < k | _ \<Rightarrow> False)
         then Inl TypeError
         else if list_ex (\<lambda>name. name \<noteq> ''element'') (map fst registry1) then Inr s2
         else Inr (destroyRegistryForElement s2 element None))"

text \<open>
  \<open>stopObserving\<close>; an argument left out is \<open>None\<close>. With a handler but no event name,
  \<open>unregister\<close> looks under the property \<open>undefined\<close>, and if it finds an entry
  \<open>removeEvent\<close> asks \<open>undefined.includes\<close>.
\<close>

definition stopObserving ::
  "platform \<Rightarrow> state \<Rightarrow> node \<Rightarrow> string option \<Rightarrow> handler option \<Rightarrow> error + state \<times> node" where
  "stopObserving p s element eventName handler =
     (case (eventName, handler) of
        (None, None) \<Rightarrow> Inr (stopObservingElement s element, element)
      | (Some en, None) \<Rightarrow>
          (case stopObservingEventName s element en of
             Inl e \<Rightarrow> Inl e
           | Inr s1 \<Rightarrow> Inr (s1, element))
      | (en_opt, Some h) \<Rightarrow>
          (case unregister p s element
                  (case en_opt of None \<Rightarrow> ''undefined'' | Some en \<Rightarrow> en) h of
             Inl e \<Rightarrow> Inl e
           | Inr (s1, found) \<Rightarrow>
               (case found of
                  None \<Rightarrow> Inr (s1, element)
                | Some entry \<Rightarrow>
                    (case en_opt of
                       None \<Rightarrow> Inl TypeError
                     | Some en \<Rightarrow>
                         Inr (removeEvent s1 element en (b_responder entry), element)))))"

subsection \<open>Dispatch and fire\<close>

text \<open>
  The host's \<open>dispatchEvent\<close>: the event visits its target and, if it bubbles, the
  target's ancestors, with the window after the document. On each node the listeners
  attached for the event's type run in the order they were attached. An \<open>item\<close> records
  one listener run: where, which responder, and what it did (the calls it made, or the
  exception it threw, which the host reports without stopping the dispatch).
\<close>

record item =
  at_node :: node
  by_responder :: responder
  outcome :: "error + call list"

definition propagation_path :: "platform \<Rightarrow> event \<Rightarrow> node \<Rightarrow> node list" where
  "propagation_path p ev tgt =
     (if ev_bubbles ev
      then (let chain = tgt # ancestors p tgt
            in if last chain = Document then chain @ [Window] else chain)
      else [tgt])"

definition run_listeners :: "state \<Rightarrow> platform \<Rightarrow> event \<Rightarrow> node \<Rightarrow> item list" where
  "run_listeners s p ev n =
     map (\<lambda>(t, r). \<lparr> at_node = n, by_responder = r,
                     outcome = invoke_responder (Some (cache s)) p r
                                 (ev\<lparr> ev_currentTarget := Some n \<rparr>) \<rparr>)
         (filter (\<lambda>(t, r). t = ev_type ev) (listeners s n))"

definition dispatchEvent :: "state \<Rightarrow> platform \<Rightarrow> node \<Rightarrow> event \<Rightarrow> item list" where
  "dispatchEvent s p tgt ev =
     concat (map (run_listeners s p (ev\<lparr> ev_target := tgt \<rparr>))
                 (propagation_path p ev tgt))"

definition getFireTarget :: "platform \<Rightarrow> node \<Rightarrow> node" where
  "getFireTarget p element =
     (if element \<noteq> Document then element
      else if createEvent p \<and> \<not> documentDispatchEvent p then documentElement p
      else element)"

text \<open>
  \<open>fire\<close>. \<open>document.createEvent\<close> is called first, so a host without it throws. The
  result is the state, the event and the record of the dispatch.
\<close>

definition fire ::
  "platform \<Rightarrow> state \<Rightarrow> node \<Rightarrow> string \<Rightarrow> jsval \<Rightarrow> bool option
     \<Rightarrow> error + state \<times> event \<times> item list" where
  "fire p s element eventName memo bubble =
     (if \<not> createEvent p then Inl TypeError
      else
        (let tgt = getFireTarget p element;
             bubble' = (case bubble of None \<Rightarrow> True | Some b \<Rightarrow> b);
             ev = \<lparr> ev_type = ''dataavailable'', ev_target = tgt, ev_currentTarget = None,
                    ev_bubbles = bubble', ev_cancelable = True,
                    ev_eventName = Some eventName,
                    ev_memo = (if truthy memo then memo else JEmptyObject) \<rparr>
         in Inr (s, ev, dispatchEvent s p tgt ev)))"

subsection \<open>Event.Handler and on\<close>

definition start :: "state \<Rightarrow> evhandler \<Rightarrow> error + state \<times> evhandler" where
  "start s this =
     (case observe s (h_element this) (h_eventName this) (HandleEvent this) of
        Inl e \<Rightarrow> Inl e
      | Inr (s1, el) \<Rightarrow> Inr (s1, this))"

definition stop :: "platform \<Rightarrow> state \<Rightarrow> evhandler \<Rightarrow> error + state \<times> evhandler" where
  "stop p s this =
     (case stopObserving p s (h_element this) (Some (h_eventName this))
             (Some (HandleEvent this)) of
        Inl e \<Rightarrow> Inl e
      | Inr (s1, el) \<Rightarrow> Inr (s1, this))"

definition on ::
  "state \<Rightarrow> node \<Rightarrow> string \<Rightarrow> selector \<Rightarrow> nat option \<Rightarrow> error + state \<times> evhandler" where
  "on s element eventName sel callback =
     (let (sel', callback') =
            (case (sel, callback) of
               (FnSelector f, None) \<Rightarrow> (NoSelector, Some f)
             | _ \<Rightarrow> (sel, callback));
          this = \<lparr> h_oid = fresh s, h_element = element, h_eventName = eventName,
                   h_selector = sel', h_callback = callback' \<rparr>
      in start (s\<lparr> fresh := fresh s + 1 \<rparr>) this)"

subsection \<open>Reading a state and a dispatch\<close>

definition uid_of :: "state \<Rightarrow> node \<Rightarrow> nat option" where
  "uid_of s n = (if n = Window then Some 0 else prototypeUID s n)"

definition registry_of :: "state \<Rightarrow> node \<Rightarrow> registry option" where
  "registry_of s n = (case uid_of s n of None \<Rightarrow> None | Some u \<Rightarrow> cache s u)"

text \<open>The entries registered for an event name on a node, in the order of the array.\<close>

definition bucket :: "state \<Rightarrow> node \<Rightarrow> string \<Rightarrow> binding list" where
  "bucket s n eventName =
     (case registry_of s n of
        None \<Rightarrow> []
      | Some registry \<Rightarrow>
          (case map_of registry eventName of Some (Entries es) \<Rightarrow> es | _ \<Rightarrow> []))"

definition calls :: "item \<Rightarrow> call list" where
  "calls it = (case outcome it of Inl e \<Rightarrow> [] | Inr cs \<Rightarrow> cs)"

definition calls_of :: "item list \<Rightarrow> call list" where
  "calls_of tr = concat (map calls tr)"

subsection \<open>The invariant of the registry\<close>

text \<open>
  The type under which a responder is attached: every custom event travels as
  \<open>dataavailable\<close>.
\<close>

definition actualEventName :: "string \<Rightarrow> string" where
  "actualEventName eventName = (if isCustomEvent eventName then ''dataavailable'' else eventName)"

text \<open>
  An array of entries under an event name is well formed when it is not empty, no two
  entries have the same handler, and every responder was made by the factory for this
  uid, event name and handler.
\<close>

definition entries_ok :: "nat \<Rightarrow> string \<Rightarrow> binding list \<Rightarrow> bool" where
  "entries_ok u en es \<longleftrightarrow>
     es \<noteq> [] \<and> distinct (map b_handler es) \<and>
     (\<forall>e \<in> set es. \<exists>k. b_responder e = createResponder k u en (b_handler e))"

text \<open>
  A registry is well formed when its property \<open>element\<close> holds the node and it has at
  least one other property, each of them a well-formed array.
\<close>

definition registry_ok :: "nat \<Rightarrow> node \<Rightarrow> registry \<Rightarrow> bool" where
  "registry_ok u n reg \<longleftrightarrow>
     distinct (map fst reg) \<and> map_of reg ''element'' = Some (Element n) \<and>
     (\<exists>en \<in> set (map fst reg). en \<noteq> ''element'') \<and>
     (\<forall>en sl. map_of reg en = Some sl \<and> en \<noteq> ''element''
        \<longrightarrow> (\<exists>es. sl = Entries es \<and> entries_ok u en es))"

text \<open>Uids are positive, below the counter, and no two nodes share one.\<close>

definition uid_ok :: "state \<Rightarrow> bool" where
  "uid_ok s \<longleftrightarrow>
     0 < UID s \<and>
     (\<forall>n u. n \<noteq> Window \<and> prototypeUID s n = Some u \<longrightarrow> 0 < u \<and> u < UID s) \<and>
     (\<forall>n m u. n \<noteq> Window \<and> m \<noteq> Window \<and> prototypeUID s n = Some u \<and> prototypeUID s m = Some u
        \<longrightarrow> n = m)"

text \<open>
  For one node: its registry, if there is one, is well formed, and the listeners
  attached to the node are exactly the responders of its registry, each under the
  type of its event name and, per event name, in the order of the array.
\<close>

definition node_ok :: "state \<Rightarrow> node \<Rightarrow> bool" where
  "node_ok s n \<longleftrightarrow>
     (\<forall>reg. registry_of s n = Some reg \<longrightarrow> (\<exists>u. uid_of s n = Some u \<and> registry_ok u n reg)) \<and>
     distinct (listeners s n) \<and>
     (\<forall>tr \<in> set (listeners s n). r_id (snd tr) < fresh s \<and> fst tr = actualEventName (r_eventName (snd tr))) \<and>
     (\<forall>en. map snd (filter (\<lambda>tr. r_eventName (snd tr) = en) (listeners s n))
            = map b_responder (bucket s n en))"

text \<open>The invariant: every registry in the cache belongs to a node.\<close>

definition inv :: "state \<Rightarrow> bool" where
  "inv s \<longleftrightarrow>
     uid_ok s \<and> (\<forall>u. cache s u \<noteq> None \<longrightarrow> (\<exists>n. uid_of s n = Some u)) \<and> (\<forall>n. node_ok s n)"

text \<open>The entries under an event name in a registry that may be missing.\<close>

definition entries_in :: "registry option \<Rightarrow> string \<Rightarrow> binding list" where
  "entries_in R en =
     (case R of None \<Rightarrow> []
      | Some reg \<Rightarrow> (case map_of reg en of Some (Entries es) \<Rightarrow> es | _ \<Rightarrow> []))"

text \<open>
  An event carries an event name when it has the type under which responders for the
  name are attached and, for a custom name, the name as its tag: a native event of type
  \<open>click\<close> carries \<open>click\<close>, the event that \<open>fire\<close> builds for \<open>ns:foo\<close> carries
  \<open>ns:foo\<close>.
\<close>

definition carries :: "event \<Rightarrow> string \<Rightarrow> bool" where
  "carries ev en \<longleftrightarrow>
     ev_type ev = actualEventName en \<and> (isCustomEvent en \<longrightarrow> ev_eventName ev = Some en)"

text \<open>
  Of the listener runs of a dispatch, those of the responders made for an event name,
  and those of the responders made for an event name and a handler.
\<close>

definition ran_for :: "string \<Rightarrow> item list \<Rightarrow> item list" where
  "ran_for en tr = filter (\<lambda>it. r_eventName (by_responder it) = en) tr"

definition invocations :: "string \<Rightarrow> handler \<Rightarrow> item list \<Rightarrow> item list" where
  "invocations en h tr =
     filter (\<lambda>it. r_eventName (by_responder it) = en \<and> r_handler (by_responder it) = h) tr"

subsection \<open>Sequences of operations\<close>

text \<open>
  A call of \<open>observe\<close> or of \<open>stopObserving\<close>; an argument of \<open>stopObserving\<close> that is
  left out is \<open>None\<close>. A sequence of calls runs until one of them throws.
\<close>

datatype op =
  Observe node string handler
| StopObserving node "string option" "handler option"

fun run_op :: "platform \<Rightarrow> state \<Rightarrow> op \<Rightarrow> error + state" where
  "run_op p s (Observe n en h) =
     (case observe s n en h of Inl e \<Rightarrow> Inl e | Inr (s', x) \<Rightarrow> Inr s')"
| "run_op p s (StopObserving n en h) =
     (case stopObserving p s n en h of Inl e \<Rightarrow> Inl e | Inr (s', x) \<Rightarrow> Inr s')"

fun run_ops :: "platform \<Rightarrow> state \<Rightarrow> op list \<Rightarrow> error + state" where
  "run_ops p s [] = Inr s"
| "run_ops p s (x # xs) =
     (case run_op p s x of Inl e \<Rightarrow> Inl e | Inr s' \<Rightarrow> run_ops p s' xs)"

text \<open>
  The calls that stay clear of what a registry holds besides its arrays: no event name
  is \<open>element\<close> or the name of a member of \<open>Object.prototype\<close>, and a handler comes
  with an event name.
\<close>

fun op_ok :: "op \<Rightarrow> bool" where
  "op_ok (Observe n en h) = (en \<noteq> ''element'' \<and> objectPrototype en = None)"
| "op_ok (StopObserving n None None) = True"
| "op_ok (StopObserving n (Some en) h) = (en \<noteq> ''element'' \<and> objectPrototype en = None)"
| "op_ok (StopObserving n None (Some h)) = False"

text \<open>
  The active bindings, read off the calls alone and not off the state: \<open>observe\<close>
  adds the binding \<open>(node, event name, handler)\<close> unless it is there, and the three forms
  of \<open>stopObserving\<close> remove one binding, those of an event name of a node, and those of a
  node. This is the specification's notion, against which the cache is compared.
\<close>

fun active_after ::
  "(node \<times> string \<times> handler) list \<Rightarrow> op \<Rightarrow> (node \<times> string \<times> handler) list" where
  "active_after A (Observe n en h) = (if (n, en, h) \<in> set A then A else A @ [(n, en, h)])"
| "active_after A (StopObserving n None None) = filter (\<lambda>t. fst t \<noteq> n) A"
| "active_after A (StopObserving n (Some en) None) =
     filter (\<lambda>t. \<not> (fst t = n \<and> fst (snd t) = en)) A"
| "active_after A (StopObserving n (Some en) (Some h)) = filter (\<lambda>t. t \<noteq> (n, en, h)) A"
| "active_after A (StopObserving n None (Some h)) = A"

definition active :: "op list \<Rightarrow> (node \<times> string \<times> handler) list" where
  "active ops = foldl active_after [] ops"

definition handlers_for ::
  "(node \<times> string \<times> handler) list \<Rightarrow> node \<Rightarrow> string \<Rightarrow> handler list" where
  "handlers_for A n en = map (\<lambda>t. snd (snd t)) (filter (\<lambda>t. fst t = n \<and> fst (snd t) = en) A)"

text \<open>A state agrees with a list of active bindings when its arrays hold their handlers.\<close>

definition agrees :: "state \<Rightarrow> (node \<times> string \<times> handler) list \<Rightarrow> bool" where
  "agrees s A \<longleftrightarrow> (\<forall>n en. map b_handler (bucket s n en) = handlers_for A n en)"

text \<open>The listeners that the loop of \<open>stopObservingElement\<close> removes.\<close>

definition removed :: "registry \<Rightarrow> (string \<times> responder) set" where
  "removed reg =
     {(actualEventName k, b_responder e) | k sl e.
        (k, sl) \<in> set reg \<and> k \<noteq> ''element'' \<and> e \<in> set (entries_of sl)}"

subsection \<open>A sample document\<close>

text \<open>
  \<open>html\<close> (\<open>Elem 0\<close>) holds a list \<open>ul\<close> (\<open>Elem 1\<close>), which holds \<open>li.item\<close>
  (\<open>Elem 2\<close>), which holds a \<open>span\<close> (\<open>Elem 3\<close>), which holds a text node (\<open>Elem 4\<close>).
\<close>

fun above :: "nat \<Rightarrow> node list" where
  "above 0 = [Document]"
| "above (Suc k) = Elem k # above k"

definition page :: platform where
  "page =
     \<lparr> ancestors = (\<lambda>n. case n of Elem k \<Rightarrow> above k | _ \<Rightarrow> []),
       nodeType = (\<lambda>n. if n = Document then 9 else if n = Elem 4 then 3 else 1),
       tagName = (\<lambda>n. if n = Elem 0 then Some ''HTML'' else if n = Elem 1 then Some ''UL''
                    else if n = Elem 2 then Some ''LI'' else if n = Elem 3 then Some ''SPAN''
                    else None),
       typeProp = (\<lambda>n. None),
       lengthProp = (\<lambda>n. if n = Window then Some 0 else None),
       isElement = (\<lambda>n. n = Elem 0 \<or> n = Elem 1 \<or> n = Elem 2 \<or> n = Elem 3),
       matches = (\<lambda>n sel. (n = Elem 1 \<and> sel = ''ul'') \<or> (n = Elem 2 \<and> sel = ''li.item'')
                    \<or> (n = Elem 3 \<and> sel = ''span'')),
       createEvent = True,
       documentDispatchEvent = True,
       documentElement = Elem 0 \<rparr>"

text \<open>A native event of a given type on its way to a target.\<close>

definition native_event :: "string \<Rightarrow> node \<Rightarrow> event" where
  "native_event type n =
     \<lparr> ev_type = type, ev_target = n, ev_currentTarget = None, ev_bubbles = True,
       ev_cancelable = True, ev_eventName = None, ev_memo = JUndefined \<rparr>"

text \<open>The event that \<open>fire\<close> builds, for reference in examples.\<close>

definition custom_event :: "string \<Rightarrow> node \<Rightarrow> event" where
  "custom_event eventName n =
     \<lparr> ev_type = ''dataavailable'', ev_target = n, ev_currentTarget = None, ev_bubbles = True,
       ev_cancelable = True, ev_eventName = Some eventName, ev_memo = JEmptyObject \<rparr>"

text \<open>
  The state after \<open>observe(ul, 'dataavailable', f7)\<close> on a fresh page, and the handler
  and state after \<open>on(li, 'click', 'ul', f9)\<close> on a fresh page.
\<close>

definition carrier_state :: state where
  "carrier_state =
     \<lparr> cache = [1 \<mapsto> [(''element'', Element (Elem 1)),
                        (''dataavailable'',
                         Entries [\<lparr> b_responder = NativeResponder 0 1 ''dataavailable'' (Fn 7),
                                    b_handler = Fn 7 \<rparr>])]],
       UID = 2, prototypeUID = [Elem 1 \<mapsto> 1],
       listeners = (\<lambda>n. [])(Elem 1 := [(''dataavailable'',
                                          NativeResponder 0 1 ''dataavailable'' (Fn 7))]),
       fresh = 1 \<rparr>"

definition list_handler :: evhandler where
  "list_handler = \<lparr> h_oid = 0, h_element = Elem 2, h_eventName = ''click'',
                      h_selector = Css ''ul'', h_callback = Some 9 \<rparr>"

definition delegating_state :: state where
  "delegating_state =
     \<lparr> cache = [1 \<mapsto> [(''element'', Element (Elem 2)),
                        (''click'',
                         Entries [\<lparr> b_responder =
                                      NativeResponder 1 1 ''click'' (HandleEvent list_handler),
                                    b_handler = HandleEvent list_handler \<rparr>])]],
       UID = 2, prototypeUID = [Elem 2 \<mapsto> 1],
       listeners = (\<lambda>n. [])(Elem 2 := [(''click'',
                        NativeResponder 1 1 ''click'' (HandleEvent list_handler))]),
       fresh = 2 \<rparr>"

text \<open>
  A run of calls on the list and its item, and the state that
  \<open>stopObserving(ul, 'element', f7)\<close> leaves on a fresh page.
\<close>

definition session :: "op list" where
  "session =
     [Observe (Elem 1) ''click'' (Fn 7), Observe (Elem 1) ''ns:foo'' (Fn 8),
      StopObserving (Elem 1) (Some ''click'') (Some (Fn 7)),
      StopObserving (Elem 1) (Some ''ns:foo'') None,
      Observe (Elem 2) ''click'' (Fn 7), StopObserving (Elem 2) None None]"

definition leftover_state :: state where
  "leftover_state =
     \<lparr> cache = [1 \<mapsto> [(''element'', Element (Elem 1))]],
       UID = 2, prototypeUID = [Elem 1 \<mapsto> 1], listeners = (\<lambda>n. []), fresh = 0 \<rparr>"

text \<open>
  The state after \<open>observe(ul, 'ns:foo', f7)\<close>, \<open>observe(ul, 'ns:bar', f8)\<close> and
  \<open>observe(ul, 'dataavailable', f9)\<close> on a fresh page, and the handler and state after
  \<open>on(li, 'click', f9)\<close> on a fresh page.
\<close>

definition crowded_state :: state where
  "crowded_state =
     \<lparr> cache = [1 \<mapsto> [(''element'', Element (Elem 1)),
                        (''ns:foo'',
                         Entries [\<lparr> b_responder = CustomResponder 0 1 ''ns:foo'' (Fn 7),
                                    b_handler = Fn 7 \<rparr>]),
                        (''ns:bar'',
                         Entries [\<lparr> b_responder = CustomResponder 1 1 ''ns:bar'' (Fn 8),
                                    b_handler = Fn 8 \<rparr>]),
                        (''dataavailable'',
                         Entries [\<lparr> b_responder = NativeResponder 2 1 ''dataavailable'' (Fn 9),
                                    b_handler = Fn 9 \<rparr>])]],
       UID = 2, prototypeUID = [Elem 1 \<mapsto> 1],
       listeners = (\<lambda>n. [])(Elem 1 := [(''dataavailable'', CustomResponder 0 1 ''ns:foo'' (Fn 7)),
                                          (''dataavailable'', CustomResponder 1 1 ''ns:bar'' (Fn 8)),
                                          (''dataavailable'',
                                           NativeResponder 2 1 ''dataavailable'' (Fn 9))]),
       fresh = 3 \<rparr>"

definition plain_handler :: evhandler where
  "plain_handler = \<lparr> h_oid = 0, h_element = Elem 2, h_eventName = ''click'',
                       h_selector = NoSelector, h_callback = Some 9 \<rparr>"

definition plain_state :: state where
  "plain_state =
     \<lparr> cache = [1 \<mapsto> [(''element'', Element (Elem 2)),
                        (''click'',
                         Entries [\<lparr> b_responder =
                                      NativeResponder 1 1 ''click'' (HandleEvent plain_handler),
                                    b_handler = HandleEvent plain_handler \<rparr>])]],
       UID = 2, prototypeUID = [Elem 2 \<mapsto> 1],
       listeners = (\<lambda>n. [])(Elem 2 := [(''click'',
                        NativeResponder 1 1 ''click'' (HandleEvent plain_handler))]),
       fresh = 2 \<rparr>"

lemmas registry_defs =
  getUniqueElementID_def getOrCreateRegistryFor_def destroyRegistryForElement_def
  register_def unregister_def createResponder_def createResponderForCustomEvent_def
  isCustomEvent_def prop_of_def objectPrototype_def Let_def

lemmas observing_defs =
  observe_def stopObserving_def stopObservingElement_def stopObservingEventName_def
  removeEvents_def removeEvent_def addEventListener_def removeEventListener_def

lemmas dispatch_defs =
  dispatchEvent_def run_listeners_def propagation_path_def invoke_responder_def
  call_handler_def handleEvent_def findElement_def element_impl_def parentNode_def
  toLowerCase_def lower_char_def getFireTarget_def fire_def calls_def calls_of_def

lemmas sample_defs = page_def native_event_def custom_event_def init_def

section \<open>The invariant is kept\<close>

lemma uid_of_inj:
  assumes "uid_ok s" "uid_of s n = Some u" "uid_of s m = Some u"
  shows "n = m"
  using assms unfolding uid_ok_def uid_of_def
  by (metis less_numeral_extra(3) option.inject)

lemma getUniqueElementID_frame:
  assumes "getUniqueElementID s n = (s2, u)"
  shows "uid_of s2 n = Some u" "cache s2 = cache s" "listeners s2 = listeners s"
    "fresh s2 = fresh s" "\<And>m v. uid_of s m = Some v \<Longrightarrow> uid_of s2 m = Some v"
    "\<And>m. m \<noteq> n \<Longrightarrow> uid_of s2 m = uid_of s m"
  using assms
  by (auto simp: getUniqueElementID_def uid_of_def split: if_splits option.splits)

lemma getUniqueElementID_idem:
  assumes "getUniqueElementID s n = (s2, u)"
  shows "getUniqueElementID (s2\<lparr> cache := c \<rparr>) n = (s2\<lparr> cache := c \<rparr>, u)"
  using assms
  by (auto simp: getUniqueElementID_def split: if_splits option.splits)

lemma no_stale:
  assumes "inv s"
  shows "cache s (UID s) = None"
proof (rule ccontr)
  assume "cache s (UID s) \<noteq> None"
  with assms obtain n where "uid_of s n = Some (UID s)" unfolding inv_def by blast
  with assms show False
    unfolding inv_def uid_ok_def uid_of_def by (auto split: if_splits)
qed

lemma getUniqueElementID_registry:
  assumes "inv s" "getUniqueElementID s n = (s2, u)"
  shows "registry_of s2 m = registry_of s m"
  using assms no_stale [OF assms(1)]
  by (auto simp: getUniqueElementID_def registry_of_def uid_of_def
        split: if_splits option.splits)

lemma getUniqueElementID_uid_ok:
  assumes "uid_ok s" "getUniqueElementID s n = (s2, u)"
  shows "uid_ok s2"
  using assms unfolding uid_ok_def getUniqueElementID_def
  by (auto split: if_splits option.splits) (metis less_SucI less_irrefl)+

lemma getUniqueElementID_inv:
  assumes "inv s" "getUniqueElementID s n = (s2, u)"
  shows "inv s2"
proof -
  note fr = getUniqueElementID_frame [OF assms(2)]
  have reg: "registry_of s2 m = registry_of s m" for m
    by (rule getUniqueElementID_registry [OF assms])
  then have bu: "bucket s2 m en = bucket s m en" for m en
    by (simp add: bucket_def)
  have "uid_ok s2" using assms getUniqueElementID_uid_ok unfolding inv_def by blast
  moreover have "\<exists>n. uid_of s2 n = Some v" if "cache s2 v \<noteq> None" for v
    using that assms(1) fr unfolding inv_def by metis
  moreover have "node_ok s2 m" for m
  proof -
    have "node_ok s m" using assms(1) unfolding inv_def by blast
    then show ?thesis
      unfolding node_ok_def reg bu fr(3) fr(4)
      by (metis fr(5) option.distinct(1) registry_of_def option.case_eq_if option.exhaust_sel)
  qed
  ultimately show ?thesis unfolding inv_def by blast
qed

lemma bucket_entries_in: "bucket s n en = entries_in (registry_of s n) en"
  by (simp add: bucket_def entries_in_def)

lemma registry_of_uid: "uid_of s n = Some u \<Longrightarrow> registry_of s n = cache s u"
  by (simp add: registry_of_def)

lemma registry_of_update:
  assumes "uid_ok s" "uid_of s n = Some u"
    and "cache s' = (cache s)(u := R)" "prototypeUID s' = prototypeUID s"
  shows "registry_of s' m = (if m = n then R else registry_of s m)"
proof -
  have u: "uid_of s' k = uid_of s k" for k
    by (simp add: uid_of_def assms(4))
  show ?thesis
  proof (cases "m = n")
    case True
    then show ?thesis by (simp add: registry_of_def u assms)
  next
    case False
    then have "uid_of s m \<noteq> Some u"
      using uid_of_inj [OF assms(1) assms(2)] by auto
    then show ?thesis using False
      by (auto simp: registry_of_def u assms(3) split: option.splits)
  qed
qed

lemma reestablish:
  assumes "inv s" "uid_of s n = Some u"
    and c: "cache s' = (cache s)(u := R)"
    and l: "listeners s' = (listeners s)(n := L)"
    and f: "fresh s \<le> fresh s'"
    and i: "UID s' = UID s" "prototypeUID s' = prototypeUID s"
    and R: "\<And>reg. R = Some reg \<Longrightarrow> registry_ok u n reg"
    and L: "distinct L"
      "\<And>tr. tr \<in> set L \<Longrightarrow>
         r_id (snd tr) < fresh s' \<and> fst tr = actualEventName (r_eventName (snd tr))"
      "\<And>en. map snd (filter (\<lambda>tr. r_eventName (snd tr) = en) L)
               = map b_responder (entries_in R en)"
  shows "inv s'"
proof -
  have uok: "uid_ok s" using assms(1) unfolding inv_def by blast
  have u: "uid_of s' k = uid_of s k" for k
    by (simp add: uid_of_def i)
  have reg: "registry_of s' m = (if m = n then R else registry_of s m)" for m
    by (rule registry_of_update [OF uok assms(2) c i(2)])
  have "uid_ok s'" using uok unfolding uid_ok_def i by simp
  moreover have "\<exists>k. uid_of s' k = Some v" if "cache s' v \<noteq> None" for v
    using that assms(1,2) unfolding inv_def c u by (cases "v = u") auto
  moreover have "node_ok s' m" for m
  proof (cases "m = n")
    case True
    show ?thesis
      unfolding node_ok_def bucket_entries_in reg u l True
      using R L assms(2) by simp
  next
    case False
    have "node_ok s m" using assms(1) unfolding inv_def by blast
    then show ?thesis
      unfolding node_ok_def bucket_entries_in reg u l using False f
      by (auto simp: less_le_trans)
  qed
  ultimately show ?thesis unfolding inv_def by blast
qed

lemma inv_no_registry_no_listeners:
  assumes "inv s" "registry_of s n = None"
  shows "listeners s n = []"
proof (rule ccontr)
  assume "listeners s n \<noteq> []"
  then obtain tr where tr: "tr \<in> set (listeners s n)"
    by (meson last_in_set)
  have "node_ok s n" using assms(1) unfolding inv_def by blast
  then have "map snd (filter (\<lambda>x. r_eventName (snd x) = r_eventName (snd tr)) (listeners s n))
      = map b_responder (bucket s n (r_eventName (snd tr)))"
    unfolding node_ok_def by blast
  moreover have "bucket s n (r_eventName (snd tr)) = []"
    by (simp add: bucket_def assms(2))
  ultimately have "filter (\<lambda>x. r_eventName (snd x) = r_eventName (snd tr)) (listeners s n) = []"
    by simp
  with tr show False by (auto simp: filter_empty_conv)
qed

lemma getUniqueElementID_again:
  assumes "getUniqueElementID s n = (s2, u)"
  shows "getUniqueElementID s2 n = (s2, u)"
  using getUniqueElementID_idem [OF assms, of "cache s2"] by simp

lemma r_createResponder [simp]:
  "r_id (createResponder k u en h) = k"
  "r_uid (createResponder k u en h) = u"
  "r_eventName (createResponder k u en h) = en"
  "r_handler (createResponder k u en h) = h"
  by (simp_all add: createResponder_def createResponderForCustomEvent_def)

lemma inv_registry_ok:
  assumes "inv s" "uid_of s n = Some u" "cache s u = Some reg"
  shows "registry_ok u n reg"
proof -
  have "node_ok s n" using assms(1) unfolding inv_def by blast
  moreover have "registry_of s n = Some reg" using assms by (simp add: registry_of_def)
  ultimately show ?thesis using assms(2) unfolding node_ok_def by auto
qed

lemma registry_ok_slot:
  assumes "registry_ok u n reg" "en \<noteq> ''element''"
  shows "map_of reg en = None \<or> (\<exists>es. map_of reg en = Some (Entries es) \<and> entries_ok u en es)"
  using assms unfolding registry_ok_def by (cases "map_of reg en") auto

text \<open>What \<open>register\<close> does to a state that satisfies the invariant.\<close>

lemma register_effect:
  assumes "inv s" "en \<noteq> ''element''" "getUniqueElementID s n = (s2, u)"
    and own: "objectPrototype en = None \<or> bucket s n en \<noteq> []"
  shows "\<exists>s' b. register s n en h = Inr (s', b)
     \<and> UID s' = UID s2 \<and> prototypeUID s' = prototypeUID s2 \<and> listeners s' = listeners s
     \<and> (if h \<in> b_handler ` set (bucket s n en)
         then b = None \<and> s' = s
         else b = Some \<lparr> b_responder = createResponder (fresh s) u en h, b_handler = h \<rparr>
            \<and> fresh s' = fresh s + 1
            \<and> cache s' = (cache s) (u \<mapsto> AList.update en
                  (Entries (bucket s n en @
                     [\<lparr> b_responder = createResponder (fresh s) u en h, b_handler = h \<rparr>]))
                  (case registry_of s n of None \<Rightarrow> [(''element'', Element n)] | Some r \<Rightarrow> r)))"
proof -
  note fr = getUniqueElementID_frame [OF assms(3)]
  note again = getUniqueElementID_again [OF assms(3)]
  note idem = getUniqueElementID_idem [OF assms(3)]
  have inv2: "inv s2" by (rule getUniqueElementID_inv [OF assms(1,3)])
  have reg_eq: "registry_of s n = cache s2 u"
    using getUniqueElementID_registry [OF assms(1,3), of n] fr(1) by (simp add: registry_of_def)
  show ?thesis
  proof (cases "cache s2 u")
    case None
    then have b: "bucket s n en = []"
      by (simp add: bucket_def reg_eq)
    have rs: "registry_of s n = None" using None reg_eq by simp
    have inh: "objectPrototype en = None" using own b by simp
    show ?thesis
      using None assms(2) b
      by (simp add: register_def getOrCreateRegistryFor_def assms(3) idem Let_def fr rs
            prop_of_def inh)
  next
    case (Some reg)
    have ok: "registry_ok u n reg"
      by (rule inv_registry_ok [OF inv2 fr(1) Some])
    from registry_ok_slot [OF ok assms(2)] show ?thesis
    proof
      assume m: "map_of reg en = None"
      then have b: "bucket s n en = []"
        by (simp add: bucket_def reg_eq Some)
      have rs: "registry_of s n = Some reg" using Some reg_eq by simp
      have inh: "objectPrototype en = None" using own b by simp
      show ?thesis
        using Some m b
        by (simp add: register_def getOrCreateRegistryFor_def assms(3) again Let_def fr
              update_conv' rs prop_of_def inh)
    next
      assume "\<exists>es. map_of reg en = Some (Entries es) \<and> entries_ok u en es"
      then obtain es where m: "map_of reg en = Some (Entries es)" and eok: "entries_ok u en es"
        by blast
      then have b: "bucket s n en = es"
        by (simp add: bucket_def reg_eq Some)
      have "registry_of s n \<noteq> None" using reg_eq Some by simp
      then have has: "uid_of s n \<noteq> None" by (auto simp: registry_of_def split: option.splits)
      have s2: "s2 = s"
        using assms(3) has
        by (auto simp: getUniqueElementID_def uid_of_def split: if_splits option.splits)
      have triv: "s\<lparr> cache := (cache s)(u \<mapsto> reg) \<rparr> = s"
        using Some by (simp add: s2 map_upd_triv)
      have rs: "registry_of s n = Some reg" using Some reg_eq by simp
      show ?thesis
        using Some m b triv
        by (auto simp: register_def getOrCreateRegistryFor_def assms(3) again Let_def fr
              list_ex_iff s2 image_iff rs prop_of_def)
    qed
  qed
qed

lemma entries_in_update:
  "entries_in (Some (AList.update en (Entries es) reg)) en' =
     (if en' = en then es else entries_in (Some reg) en')"
  by (simp add: entries_in_def update_conv')

lemma entries_in_delete:
  "entries_in (Some (AList.delete en reg)) en' =
     (if en' = en then [] else entries_in (Some reg) en')"
  by (simp add: entries_in_def delete_conv')

lemma entries_in_None [simp]: "entries_in None en = []"
  by (simp add: entries_in_def)

lemma entries_in_fresh_registry:
  "en' \<noteq> en \<Longrightarrow> entries_in (Some [(''element'', Element n)]) en' = []"
  "entries_in (Some [(''element'', Element n)]) en' = []"
  by (simp_all add: entries_in_def)

lemma registry_ok_update:
  assumes "en \<noteq> ''element''" "reg0 = [(''element'', Element n)] \<or> registry_ok u n reg0"
    and "entries_ok u en es"
  shows "registry_ok u n (AList.update en (Entries es) reg0)"
proof -
  have d: "distinct (map fst reg0)" and e: "map_of reg0 ''element'' = Some (Element n)"
    and o: "\<And>en' sl. map_of reg0 en' = Some sl \<Longrightarrow> en' \<noteq> ''element''
              \<Longrightarrow> \<exists>es. sl = Entries es \<and> entries_ok u en' es"
    using assms(2) unfolding registry_ok_def by (auto split: if_splits)
  show ?thesis
    unfolding registry_ok_def
    using d e o assms(1,3)
    by (auto simp: distinct_update update_conv' dom_update split: if_splits)
qed

lemma inv_listener_bounds:
  assumes "inv s" "tr \<in> set (listeners s n)"
  shows "r_id (snd tr) < fresh s" "fst tr = actualEventName (r_eventName (snd tr))"
proof -
  have "node_ok s n" using assms(1) unfolding inv_def by blast
  then show "r_id (snd tr) < fresh s" "fst tr = actualEventName (r_eventName (snd tr))"
    using assms(2) unfolding node_ok_def by blast+
qed

lemma inv_listeners_filter:
  assumes "inv s"
  shows "map snd (filter (\<lambda>tr. r_eventName (snd tr) = en) (listeners s n))
           = map b_responder (bucket s n en)"
proof -
  have "node_ok s n" using assms(1) unfolding inv_def by blast
  then show ?thesis unfolding node_ok_def by blast
qed

lemma inv_distinct_listeners: "inv s \<Longrightarrow> distinct (listeners s n)"
  unfolding inv_def node_ok_def by blast

lemma inv_bucket_ok:
  assumes "inv s" "uid_of s n = Some u" "en \<noteq> ''element''"
  shows "bucket s n en = [] \<or> entries_ok u en (bucket s n en)"
proof (cases "cache s u")
  case None
  then show ?thesis using assms(2) by (simp add: bucket_def registry_of_def)
next
  case (Some reg)
  from registry_ok_slot [OF inv_registry_ok [OF assms(1,2) Some] assms(3)] Some assms(2)
  show ?thesis by (auto simp: bucket_def registry_of_def)
qed

lemma uid_of_cong: "prototypeUID s' = prototypeUID s \<Longrightarrow> uid_of s' k = uid_of s k"
  by (simp add: uid_of_def)

lemma bucket_nonempty:
  assumes "bucket s n en \<noteq> []"
  shows "registry_of s n \<noteq> None" "uid_of s n \<noteq> None"
proof -
  show "registry_of s n \<noteq> None"
    using assms by (cases "registry_of s n") (simp_all add: bucket_def)
  then show "uid_of s n \<noteq> None"
    by (cases "uid_of s n") (simp_all add: registry_of_def)
qed

text \<open>What \<open>observe\<close> does to a state that satisfies the invariant.\<close>

lemma observe_effect:
  assumes "inv s" "en \<noteq> ''element''" "objectPrototype en = None \<or> bucket s n en \<noteq> []"
  shows "\<exists>s'. observe s n en h = Inr (s', n) \<and> inv s'
     \<and> uid_of s' n = Some (snd (getUniqueElementID s n))
     \<and> (\<forall>m e. (m, e) \<noteq> (n, en) \<longrightarrow> bucket s' m e = bucket s m e)
     \<and> (\<forall>m. m \<noteq> n \<longrightarrow> listeners s' m = listeners s m)
     \<and> (if h \<in> b_handler ` set (bucket s n en) then s' = s
         else bucket s' n en = bucket s n en @
                [\<lparr> b_responder = createResponder (fresh s) (snd (getUniqueElementID s n)) en h,
                   b_handler = h \<rparr>]
            \<and> listeners s' n = listeners s n @
                [(actualEventName en,
                  createResponder (fresh s) (snd (getUniqueElementID s n)) en h)])"
proof -
  obtain s2 u where g: "getUniqueElementID s n = (s2, u)"
    by (cases "getUniqueElementID s n")
  note fr = getUniqueElementID_frame [OF g]
  have inv2: "inv s2" by (rule getUniqueElementID_inv [OF assms(1) g])
  have uok2: "uid_ok s2" using inv2 unfolding inv_def by blast
  have regs: "registry_of s2 m = registry_of s m" for m
    by (rule getUniqueElementID_registry [OF assms(1) g])
  let ?r = "createResponder (fresh s) u en h"
  let ?e = "\<lparr> b_responder = ?r, b_handler = h \<rparr>"
  let ?reg0 = "case registry_of s n of None \<Rightarrow> [(''element'', Element n)] | Some r \<Rightarrow> r"
  let ?R = "AList.update en (Entries (bucket s n en @ [?e])) ?reg0"
  from register_effect [OF assms(1,2) g assms(3), of h] obtain s1 b where
    r: "register s n en h = Inr (s1, b)"
    and r1: "UID s1 = UID s2" "prototypeUID s1 = prototypeUID s2" "listeners s1 = listeners s"
    and r2: "if h \<in> b_handler ` set (bucket s n en) then b = None \<and> s1 = s
             else b = Some ?e \<and> fresh s1 = fresh s + 1 \<and> cache s1 = (cache s) (u \<mapsto> ?R)"
    by blast
  show ?thesis
  proof (cases "h \<in> b_handler ` set (bucket s n en)")
    case True
    with r2 have b: "b = None" "s1 = s" by auto
    from True have "bucket s n en \<noteq> []" by auto
    then have "uid_of s n \<noteq> None" by (rule bucket_nonempty)
    then have "s2 = s"
      using g by (auto simp: getUniqueElementID_def uid_of_def split: if_splits option.splits)
    then have "uid_of s n = Some u" using fr(1) by simp
    then show ?thesis
      using True assms(1) by (simp add: observe_def r b g)
  next
    case False
    with r2 have b: "b = Some ?e" "fresh s1 = fresh s + 1" "cache s1 = (cache s) (u \<mapsto> ?R)"
      by auto
    let ?t = "actualEventName en"
    let ?s' = "addEventListener s1 n ?t ?r"
    have notin: "(?t, ?r) \<notin> set (listeners s n)"
      using inv_listener_bounds(1) [OF assms(1), of "(?t, ?r)" n] by auto
    have ob: "observe s n en h = Inr (?s', n)"
      by (simp add: observe_def r b actualEventName_def)
    have c': "cache ?s' = (cache s2) (u := Some ?R)"
      by (simp add: addEventListener_def b fr)
    have l': "listeners ?s' = (listeners s2) (n := listeners s n @ [(?t, ?r)])"
      using notin by (simp add: addEventListener_def r1 fr)
    have f': "fresh ?s' = fresh s + 1" by (simp add: addEventListener_def b)
    have i': "UID ?s' = UID s2" "prototypeUID ?s' = prototypeUID s2"
      by (simp_all add: addEventListener_def r1)
    have bk: "bucket s n en = [] \<or> entries_ok u en (bucket s n en)"
      using inv_bucket_ok [OF inv2 fr(1) assms(2)] by (simp add: bucket_def regs)
    have eok: "entries_ok u en (bucket s n en @ [?e])"
      using bk False unfolding entries_ok_def by auto
    have reg0: "?reg0 = [(''element'', Element n)] \<or> registry_ok u n ?reg0"
    proof (cases "registry_of s n")
      case None
      then show ?thesis by simp
    next
      case (Some reg)
      then have "cache s2 u = Some reg" using regs [of n] fr(1) by (simp add: registry_of_def)
      from inv_registry_ok [OF inv2 fr(1) this] Some show ?thesis by simp
    qed
    have Rok: "registry_ok u n ?R"
      by (rule registry_ok_update [OF assms(2) reg0 eok])
    have ein: "entries_in (Some ?R) e = (if e = en then bucket s n en @ [?e] else bucket s n e)"
      for e
    proof (cases "registry_of s n")
      case None
      then show ?thesis using assms(2) by (auto simp: bucket_entries_in entries_in_def)
    next
      case (Some reg)
      then show ?thesis by (simp add: bucket_entries_in entries_in_update)
    qed
    have flt: "map snd (filter (\<lambda>tr. r_eventName (snd tr) = e) (listeners s n @ [(?t, ?r)]))
               = map b_responder (entries_in (Some ?R) e)" for e
      unfolding ein using inv_listeners_filter [OF assms(1), of e n] by simp
    have inv': "inv ?s'"
    proof (rule reestablish [OF inv2 fr(1) c' l' _ i'])
      show "fresh s2 \<le> fresh ?s'" by (simp add: f' fr)
      show "registry_ok u n reg" if "Some ?R = Some reg" for reg using that Rok by simp
      show "distinct (listeners s n @ [(?t, ?r)])"
        using inv_distinct_listeners [OF assms(1), of n] notin by simp
      show "r_id (snd tr) < fresh ?s' \<and> fst tr = actualEventName (r_eventName (snd tr))"
        if "tr \<in> set (listeners s n @ [(?t, ?r)])" for tr
        using that inv_listener_bounds [OF assms(1), of tr n] by (auto simp: f')
      show "map snd (filter (\<lambda>tr. r_eventName (snd tr) = e) (listeners s n @ [(?t, ?r)]))
               = map b_responder (entries_in (Some ?R) e)" for e
        by (rule flt)
    qed
    have reg': "registry_of ?s' m = (if m = n then Some ?R else registry_of s m)" for m
      using registry_of_update [OF uok2 fr(1) c' i'(2), of m] regs by simp
    have u': "uid_of ?s' n = Some u"
      using fr(1) uid_of_cong [OF i'(2)] by simp
    have bothers: "bucket ?s' m e = bucket s m e" if "(m, e) \<noteq> (n, en)" for m e
      using that bucket_entries_in [of s m e]
      by (auto simp: bucket_entries_in [of ?s'] reg' ein)
    have bn: "bucket ?s' n en = bucket s n en @ [?e]"
      by (simp add: bucket_entries_in [of ?s'] reg' ein)
    have lo: "listeners ?s' m = listeners s m" if "m \<noteq> n" for m
      using that by (simp add: l' fr)
    have ln: "listeners ?s' n = listeners s n @ [(?t, ?r)]"
      by (simp add: l')
    show ?thesis
      using False ob inv' u' bothers bn lo ln by (simp add: g)
  qed
qed

subsection \<open>Removing\<close>

lemma remove1_distinct_filter:
  assumes "distinct xs"
  shows "remove1 x xs = filter (\<lambda>y. y \<noteq> x) xs"
proof -
  have "filter (\<lambda>y. x \<noteq> y) xs = filter (\<lambda>y. y \<noteq> x) xs"
    by (rule filter_cong) auto
  then show ?thesis
    using assms by (simp add: distinct_remove1_removeAll removeAll_filter_not_eq)
qed

lemma find_set: "find P xs = Some x \<Longrightarrow> x \<in> set xs \<and> P x"
  by (induction xs) (auto split: if_splits)

lemma find_handler:
  assumes "distinct (map b_handler es)"
  shows "if h \<in> b_handler ` set es
         then \<exists>e. find (\<lambda>e. b_handler e = h) (rev es) = Some e \<and> e \<in> set es \<and> b_handler e = h
                \<and> remove1 e es = filter (\<lambda>b. b_handler b \<noteq> h) es
         else find (\<lambda>e. b_handler e = h) (rev es) = None
                \<and> filter (\<lambda>b. b_handler b \<noteq> h) es = es"
proof (cases "h \<in> b_handler ` set es")
  case True
  then have "find (\<lambda>e. b_handler e = h) (rev es) \<noteq> None"
    by (auto simp: find_None_iff)
  then obtain e where e: "find (\<lambda>e. b_handler e = h) (rev es) = Some e"
    by blast
  from find_set [OF e] have m: "e \<in> set es" "b_handler e = h"
    by simp_all
  have d: "distinct es" and i: "inj_on b_handler (set es)"
    using assms by (simp_all add: distinct_map)
  have "remove1 e es = filter (\<lambda>b. b \<noteq> e) es"
    by (rule remove1_distinct_filter [OF d])
  also have "\<dots> = filter (\<lambda>b. b_handler b \<noteq> h) es"
  proof (rule filter_cong [OF refl])
    fix b assume "b \<in> set es"
    then show "(b \<noteq> e) = (b_handler b \<noteq> h)"
      using i m by (auto dest: inj_onD)
  qed
  finally have "remove1 e es = filter (\<lambda>b. b_handler b \<noteq> h) es" .
  with True e m show ?thesis by auto
next
  case False
  then have "find (\<lambda>e. b_handler e = h) (rev es) = None"
    by (auto simp: find_None_iff)
  moreover have "filter (\<lambda>b. b_handler b \<noteq> h) es = es"
    using False by (auto simp: filter_id_conv)
  ultimately show ?thesis using False by simp
qed

lemma removeEvent_listeners:
  "removeEvent s n en r =
     s\<lparr> listeners := (listeners s)(n := remove1 (actualEventName en, r) (listeners s n)) \<rparr>"
  by (simp add: removeEvent_def removeEventListener_def actualEventName_def Let_def)

lemma fold_removeEvent:
  assumes "distinct (listeners s n)"
  shows "fold (\<lambda>e s'. removeEvent s' n en (b_responder e)) xs s =
     s\<lparr> listeners := (listeners s)
          (n := filter (\<lambda>x. x \<notin> (\<lambda>e. (actualEventName en, b_responder e)) ` set xs)
                  (listeners s n)) \<rparr>"
  using assms
proof (induction xs arbitrary: s)
  case Nil
  then show ?case by simp
next
  case (Cons e xs)
  let ?g = "\<lambda>e. (actualEventName en, b_responder e)"
  let ?l1 = "filter (\<lambda>y. y \<noteq> ?g e) (listeners s n)"
  let ?s1 = "s\<lparr> listeners := (listeners s)(n := ?l1) \<rparr>"
  have s1: "removeEvent s n en (b_responder e) = ?s1"
    using Cons.prems by (simp add: removeEvent_listeners remove1_distinct_filter)
  have d1: "distinct (listeners ?s1 n)" using Cons.prems by simp
  have ff: "filter (\<lambda>x. x \<notin> ?g ` set xs) ?l1 = filter (\<lambda>x. x \<notin> ?g ` set (e # xs)) (listeners s n)"
    unfolding filter_filter by (rule filter_cong) auto
  have "fold (\<lambda>e s'. removeEvent s' n en (b_responder e)) (e # xs) s
      = fold (\<lambda>e s'. removeEvent s' n en (b_responder e)) xs ?s1"
    by (simp add: s1)
  also have "\<dots> = ?s1\<lparr> listeners := (listeners ?s1)
          (n := filter (\<lambda>x. x \<notin> ?g ` set xs) (listeners ?s1 n)) \<rparr>"
    by (rule Cons.IH [OF d1])
  also have "\<dots> = s\<lparr> listeners := (listeners s)
          (n := filter (\<lambda>x. x \<notin> ?g ` set (e # xs)) (listeners s n)) \<rparr>"
    using ff by simp
  finally show ?case .
qed

lemma removeEvents_listeners:
  assumes "distinct (listeners s n)"
  shows "removeEvents s n en es =
     s\<lparr> listeners := (listeners s)
          (n := filter (\<lambda>x. x \<notin> (\<lambda>e. (actualEventName en, b_responder e)) ` set es)
                  (listeners s n)) \<rparr>"
  unfolding removeEvents_def using fold_removeEvent [OF assms, of en "rev es"] by simp

lemma registry_ok_length:
  assumes "registry_ok u n reg"
  shows "length (map fst reg) \<noteq> 1"
proof
  assume "length (map fst reg) = 1"
  then obtain k where k: "map fst reg = [k]"
    by (cases "map fst reg") auto
  from assms have "''element'' \<in> set (map fst reg)" "\<exists>en \<in> set (map fst reg). en \<noteq> ''element''"
    unfolding registry_ok_def by (auto dest: map_of_SomeD intro: rev_image_eqI)
  with k show False by auto
qed

lemma registry_ok_delete:
  assumes "registry_ok u n reg" "en \<noteq> ''element''"
    and "\<exists>k \<in> set (map fst (AList.delete en reg)). k \<noteq> ''element''"
  shows "registry_ok u n (AList.delete en reg)"
  using assms unfolding registry_ok_def
  by (auto simp: distinct_delete delete_conv' split: if_splits)

lemma registry_ok_delete_last:
  assumes "registry_ok u n reg"
    and "\<not> (\<exists>k \<in> set (map fst (AList.delete en reg)). k \<noteq> ''element'')" "e \<noteq> en"
  shows "entries_in (Some reg) e = []"
proof (cases "map_of reg e")
  case None
  then show ?thesis by (simp add: entries_in_def)
next
  case (Some sl)
  show ?thesis
  proof (cases "e = ''element''")
    case True
    then show ?thesis using assms(1) by (simp add: entries_in_def registry_ok_def)
  next
    case False
    have "e \<in> set (map fst (AList.delete en reg))"
      using Some assms(3) by (auto simp: delete_keys dest: map_of_SomeD intro: rev_image_eqI)
    with assms(2) False show ?thesis by blast
  qed
qed

lemma keys_one_or_more:
  assumes "distinct (map fst reg)" "''element'' \<in> set (map fst reg)"
  shows "(length (map fst reg) = 1 \<and> ''element'' \<in> set (map fst reg))
           \<longleftrightarrow> \<not> (\<exists>k \<in> set (map fst reg). k \<noteq> ''element'')"
proof
  assume "length (map fst reg) = 1 \<and> ''element'' \<in> set (map fst reg)"
  then show "\<not> (\<exists>k \<in> set (map fst reg). k \<noteq> ''element'')"
    by (cases "map fst reg") auto
next
  assume a: "\<not> (\<exists>k \<in> set (map fst reg). k \<noteq> ''element'')"
  then have "set (map fst reg) = {''element''}" using assms(2) by auto
  then have "card (set (map fst reg)) = 1" by simp
  moreover have "card (set (map fst reg)) = length (map fst reg)"
    by (rule distinct_card [OF assms(1)])
  ultimately have "length (map fst reg) = 1" by simp
  then show "length (map fst reg) = 1 \<and> ''element'' \<in> set (map fst reg)"
    using assms(2) by simp
qed

lemma entries_ok_filter:
  assumes "entries_ok u en es" "filter P es \<noteq> []"
  shows "entries_ok u en (filter P es)"
  using assms unfolding entries_ok_def by (auto simp: distinct_map_filter)

text \<open>What \<open>unregister\<close> does to a state that satisfies the invariant.\<close>

lemma unregister_effect:
  assumes "inv s" "en \<noteq> ''element''" "getUniqueElementID s n = (s2, u)"
    and own: "objectPrototype en = None \<or> bucket s n en \<noteq> []"
  shows "\<exists>s1 found R. unregister p s n en h = Inr (s1, found)
     \<and> UID s1 = UID s2 \<and> prototypeUID s1 = prototypeUID s2 \<and> listeners s1 = listeners s
     \<and> fresh s1 = fresh s \<and> cache s1 = (cache s)(u := R)
     \<and> (\<forall>reg. R = Some reg \<longrightarrow> registry_ok u n reg)
     \<and> (\<forall>e. entries_in R e =
              (if e = en then filter (\<lambda>b. b_handler b \<noteq> h) (bucket s n en) else bucket s n e))
     \<and> (if h \<in> b_handler ` set (bucket s n en)
         then \<exists>e \<in> set (bucket s n en). found = Some e \<and> b_handler e = h
         else found = None)"
proof -
  note fr = getUniqueElementID_frame [OF assms(3)]
  note again = getUniqueElementID_again [OF assms(3)]
  note idem = getUniqueElementID_idem [OF assms(3)]
  have inv2: "inv s2" by (rule getUniqueElementID_inv [OF assms(1,3)])
  have reg_eq: "registry_of s n = cache s2 u"
    using getUniqueElementID_registry [OF assms(1,3), of n] fr(1) by (simp add: registry_of_def)
  show ?thesis
  proof (cases "cache s2 u")
    case None
    have rs: "registry_of s n = None" using None reg_eq by simp
    have inh: "objectPrototype en = None" using own by (simp add: bucket_def rs)
    have un: "unregister p s n en h = Inr (s2\<lparr> cache := (cache s2)(u := None) \<rparr>, None)"
      using None assms(2)
      by (simp add: unregister_def getOrCreateRegistryFor_def destroyRegistryForElement_def
            assms(3) idem Let_def prop_of_def inh)
    show ?thesis
      unfolding un
      by (rule exI [of _ "s2\<lparr> cache := (cache s2)(u := None) \<rparr>"], rule exI [of _ None],
          rule exI [of _ None])
         (simp add: fr bucket_entries_in rs)
  next
    case (Some reg)
    have rs: "registry_of s n = Some reg" using Some reg_eq by simp
    have ok: "registry_ok u n reg"
      by (rule inv_registry_ok [OF inv2 fr(1) Some])
    have dk: "distinct (map fst reg)" and el: "map_of reg ''element'' = Some (Element n)"
      using ok by (simp_all add: registry_ok_def)
    have bk: "bucket s n e = entries_in (Some reg) e" for e
      by (simp add: bucket_entries_in rs)
    from registry_ok_slot [OF ok assms(2)] show ?thesis
    proof
      assume m: "map_of reg en = None"
      then have "en \<notin> fst ` set reg" by (simp add: map_of_eq_None_iff)
      then have del: "AList.delete en reg = reg" by simp
      have inh: "objectPrototype en = None" using own m by (simp add: bk entries_in_def)
      have un: "unregister p s n en h = Inr (s2\<lparr> cache := (cache s2)(u \<mapsto> reg) \<rparr>, None)"
        using Some m del registry_ok_length [OF ok]
        by (simp add: unregister_def getOrCreateRegistryFor_def assms(3) again Let_def
              prop_of_def inh)
      have b: "bucket s n en = []" using m by (simp add: bk entries_in_def)
      show ?thesis
        unfolding un
        by (rule exI [of _ "s2\<lparr> cache := (cache s2)(u \<mapsto> reg) \<rparr>"], rule exI [of _ None],
            rule exI [of _ "Some reg"])
           (use ok b in \<open>simp add: fr bk\<close>)
    next
      assume "\<exists>es. map_of reg en = Some (Entries es) \<and> entries_ok u en es"
      then obtain es where m: "map_of reg en = Some (Entries es)" and eok: "entries_ok u en es"
        by blast
      have b: "bucket s n en = es" using m by (simp add: bk entries_in_def)
      have dh: "distinct (map b_handler es)" and ne: "es \<noteq> []"
        using eok by (simp_all add: entries_ok_def)
      let ?es' = "filter (\<lambda>b. b_handler b \<noteq> h) es"
      show ?thesis
      proof (cases "h \<in> b_handler ` set es")
        case False
        with find_handler [OF dh, of h]
        have f: "find (\<lambda>e. b_handler e = h) (rev es) = None" and fe: "?es' = es"
          by simp_all
        have un: "unregister p s n en h = Inr (s2\<lparr> cache := (cache s2)(u \<mapsto> reg) \<rparr>, None)"
          using Some m f ne
          by (simp add: unregister_def getOrCreateRegistryFor_def assms(3) again Let_def
              prop_of_def)
        show ?thesis
          unfolding un
          by (rule exI [of _ "s2\<lparr> cache := (cache s2)(u \<mapsto> reg) \<rparr>"], rule exI [of _ None],
              rule exI [of _ "Some reg"])
             (use ok b fe False in \<open>simp add: fr bk\<close>)
      next
        case True
        with find_handler [OF dh, of h] obtain e where
          f: "find (\<lambda>e. b_handler e = h) (rev es) = Some e" and e: "e \<in> set es" "b_handler e = h"
          and re: "remove1 e es = ?es'"
          by auto
        let ?reg1 = "AList.update en (Entries ?es') reg"
        have m1: "map_of ?reg1 en = Some (Entries ?es')" by (simp add: update_conv')
        have found: "\<exists>e \<in> set (bucket s n en). Some e = Some e \<and> b_handler e = h"
          using e b by auto
        show ?thesis
        proof (cases "?es' = []")
          case False
          have un: "unregister p s n en h = Inr (s2\<lparr> cache := (cache s2)(u \<mapsto> ?reg1) \<rparr>, Some e)"
            using Some m f re m1 False
            by (simp add: unregister_def getOrCreateRegistryFor_def assms(3) again Let_def
              prop_of_def)
          have ok1: "registry_ok u n ?reg1"
            by (rule registry_ok_update [OF assms(2) disjI2 [OF ok]
                  entries_ok_filter [OF eok False]])
          show ?thesis
            unfolding un
            by (rule exI [of _ "s2\<lparr> cache := (cache s2)(u \<mapsto> ?reg1) \<rparr>"],
                rule exI [of _ "Some e"], rule exI [of _ "Some ?reg1"])
               (use ok1 b True e in \<open>auto simp: fr bk entries_in_update\<close>)
        next
          case empty: True
          let ?reg2 = "AList.delete en reg"
          have d2: "AList.delete en ?reg1 = ?reg2" by (simp add: delete_update_same)
          have dk2: "distinct (map fst ?reg2)" using dk by (simp add: distinct_delete)
          have el2: "''element'' \<in> set (map fst ?reg2)"
            using el assms(2) by (auto simp: delete_keys dest: map_of_SomeD intro: rev_image_eqI)
          note one = keys_one_or_more [OF dk2 el2]
          show ?thesis
          proof (cases "\<exists>k \<in> set (map fst ?reg2). k \<noteq> ''element''")
            case True
            from one True
            have no: "\<not> (length (map fst ?reg2) = 1 \<and> ''element'' \<in> set (map fst ?reg2))"
              by blast
            have un: "unregister p s n en h = Inr (s2\<lparr> cache := (cache s2)(u \<mapsto> ?reg2) \<rparr>, Some e)"
              using Some m f re m1 empty d2 no
              by (auto simp: unregister_def getOrCreateRegistryFor_def assms(3) again Let_def
              prop_of_def)
            have ok2: "registry_ok u n ?reg2"
              by (rule registry_ok_delete [OF ok assms(2) True])
            show ?thesis
              unfolding un
              by (rule exI [of _ "s2\<lparr> cache := (cache s2)(u \<mapsto> ?reg2) \<rparr>"],
                  rule exI [of _ "Some e"], rule exI [of _ "Some ?reg2"])
                 (use ok2 b \<open>h \<in> b_handler ` set es\<close> e empty in
                    \<open>auto simp: fr bk entries_in_delete\<close>)
          next
            case False
            from one False
            have yes: "length (map fst ?reg2) = 1 \<and> ''element'' \<in> set (map fst ?reg2)"
              by blast
            have un: "unregister p s n en h = Inr (s2\<lparr> cache := (cache s2)(u := None) \<rparr>, Some e)"
              using Some m f re m1 empty d2 yes
              by (simp add: unregister_def getOrCreateRegistryFor_def
                    destroyRegistryForElement_def assms(3) again idem Let_def prop_of_def)
            have others: "entries_in (Some reg) e' = []" if "e' \<noteq> en" for e'
              by (rule registry_ok_delete_last [OF ok False that])
            show ?thesis
              unfolding un
              by (rule exI [of _ "s2\<lparr> cache := (cache s2)(u := None) \<rparr>"],
                  rule exI [of _ "Some e"], rule exI [of _ None])
                 (use b \<open>h \<in> b_handler ` set es\<close> e empty others in \<open>auto simp: fr bk\<close>)
          qed
        qed
      qed
    qed
  qed
qed

lemma inv_bucket_element:
  assumes "inv s"
  shows "bucket s n ''element'' = []"
proof (cases "registry_of s n")
  case None
  then show ?thesis by (simp add: bucket_def)
next
  case (Some reg)
  have "node_ok s n" using assms unfolding inv_def by blast
  with Some have "map_of reg ''element'' = Some (Element n)"
    unfolding node_ok_def registry_ok_def by auto
  with Some show ?thesis by (simp add: bucket_def)
qed

lemma inv_binding:
  assumes "inv s" "b \<in> set (bucket s n en)"
  shows "r_eventName (b_responder b) = en" "r_handler (b_responder b) = b_handler b"
    "(actualEventName en, b_responder b) \<in> set (listeners s n)"
    "distinct (map b_handler (bucket s n en))"
proof -
  from assms(2) have ne: "bucket s n en \<noteq> []" by auto
  then obtain u where u: "uid_of s n = Some u"
    using bucket_nonempty(2) by blast
  have "en \<noteq> ''element''" using ne inv_bucket_element [OF assms(1)] by auto
  from inv_bucket_ok [OF assms(1) u this] ne
  have ok: "entries_ok u en (bucket s n en)" by simp
  with assms(2) obtain k where k: "b_responder b = createResponder k u en (b_handler b)"
    unfolding entries_ok_def by blast
  show n: "r_eventName (b_responder b) = en" and "r_handler (b_responder b) = b_handler b"
    by (simp_all add: k)
  show "distinct (map b_handler (bucket s n en))"
    using ok by (simp add: entries_ok_def)
  have "b_responder b \<in> set (map snd (filter (\<lambda>tr. r_eventName (snd tr) = en) (listeners s n)))"
    unfolding inv_listeners_filter [OF assms(1)] using assms(2) by simp
  then obtain tr where tr: "tr \<in> set (listeners s n)" "r_eventName (snd tr) = en"
    "snd tr = b_responder b"
    by auto
  with inv_listener_bounds(2) [OF assms(1) tr(1)]
  have "tr = (actualEventName en, b_responder b)"
    by (cases tr) simp
  with tr(1) show "(actualEventName en, b_responder b) \<in> set (listeners s n)" by simp
qed

lemma inv_listener:
  assumes "inv s" "tr \<in> set (listeners s n)"
  shows "\<exists>b \<in> set (bucket s n (r_eventName (snd tr))).
           tr = (actualEventName (r_eventName (snd tr)), b_responder b)"
proof -
  let ?en = "r_eventName (snd tr)"
  have "snd tr \<in> set (map snd (filter (\<lambda>x. r_eventName (snd x) = ?en) (listeners s n)))"
    using assms(2) by auto
  then have "snd tr \<in> set (map b_responder (bucket s n ?en))"
    unfolding inv_listeners_filter [OF assms(1)] .
  then obtain b where "b \<in> set (bucket s n ?en)" "snd tr = b_responder b" by auto
  with inv_listener_bounds(2) [OF assms] show ?thesis
    by (cases tr) auto
qed

text \<open>A state change that removes listeners of one node and rewrites its registry.\<close>

lemma after_removal:
  assumes "inv s" "getUniqueElementID s n = (s2, u)"
    and c: "cache s' = (cache s)(u := R)"
    and l: "listeners s' = (listeners s)(n := filter P (listeners s n))"
    and f: "fresh s' = fresh s"
    and i: "UID s' = UID s2" "prototypeUID s' = prototypeUID s2"
    and R: "\<And>reg. R = Some reg \<Longrightarrow> registry_ok u n reg"
    and e: "\<And>e. map snd (filter (\<lambda>tr. r_eventName (snd tr) = e) (filter P (listeners s n)))
               = map b_responder (entries_in R e)"
  shows "inv s'" "\<And>m e. bucket s' m e = (if m = n then entries_in R e else bucket s m e)"
    "\<And>m. listeners s' m = (if m = n then filter P (listeners s n) else listeners s m)"
proof -
  note fr = getUniqueElementID_frame [OF assms(2)]
  have inv2: "inv s2" by (rule getUniqueElementID_inv [OF assms(1,2)])
  have uok2: "uid_ok s2" using inv2 unfolding inv_def by blast
  have regs: "registry_of s2 m = registry_of s m" for m
    by (rule getUniqueElementID_registry [OF assms(1,2)])
  have c2: "cache s' = (cache s2)(u := R)" by (simp add: c fr)
  have l2: "listeners s' = (listeners s2)(n := filter P (listeners s n))" by (simp add: l fr)
  show "inv s'"
  proof (rule reestablish [OF inv2 fr(1) c2 l2 _ i])
    show "fresh s2 \<le> fresh s'" by (simp add: f fr)
    show "registry_ok u n reg" if "R = Some reg" for reg by (rule R [OF that])
    show "distinct (filter P (listeners s n))"
      using inv_distinct_listeners [OF assms(1)] by simp
    show "r_id (snd tr) < fresh s' \<and> fst tr = actualEventName (r_eventName (snd tr))"
      if "tr \<in> set (filter P (listeners s n))" for tr
      using that inv_listener_bounds [OF assms(1), of tr n] by (simp add: f)
    show "map snd (filter (\<lambda>tr. r_eventName (snd tr) = en) (filter P (listeners s n)))
               = map b_responder (entries_in R en)" for en
      by (rule e)
  qed
  have reg': "registry_of s' m = (if m = n then R else registry_of s m)" for m
    using registry_of_update [OF uok2 fr(1) c2 i(2), of m] regs by simp
  show "bucket s' m e = (if m = n then entries_in R e else bucket s m e)" for m e
    using bucket_entries_in [of s m e] by (simp add: bucket_entries_in [of s'] reg')
  show "listeners s' m = (if m = n then filter P (listeners s n) else listeners s m)" for m
    by (simp add: l)
qed

text \<open>What \<open>stopObserving(element, eventName, handler)\<close> does.\<close>

lemma stopObserving_handler_effect:
  assumes "inv s" "en \<noteq> ''element''" "objectPrototype en = None \<or> bucket s n en \<noteq> []"
  shows "\<exists>s'. stopObserving p s n (Some en) (Some h) = Inr (s', n) \<and> inv s'
     \<and> (\<forall>m e. bucket s' m e =
           (if m = n \<and> e = en then filter (\<lambda>b. b_handler b \<noteq> h) (bucket s n en)
            else bucket s m e))
     \<and> (\<forall>m. listeners s' m =
           (if m = n
            then filter (\<lambda>tr. \<not> (r_eventName (snd tr) = en \<and> r_handler (snd tr) = h))
                   (listeners s n)
            else listeners s m))"
proof -
  obtain s2 u where g: "getUniqueElementID s n = (s2, u)"
    by (cases "getUniqueElementID s n")
  let ?P = "\<lambda>tr. \<not> (r_eventName (snd tr) = en \<and> r_handler (snd tr) = h)"
  let ?es' = "filter (\<lambda>b. b_handler b \<noteq> h) (bucket s n en)"
  from unregister_effect [OF assms(1,2) g assms(3), of p h] obtain s1 found R where
    un: "unregister p s n en h = Inr (s1, found)"
    and fields: "UID s1 = UID s2" "prototypeUID s1 = prototypeUID s2" "listeners s1 = listeners s"
      "fresh s1 = fresh s" "cache s1 = (cache s)(u := R)"
    and R: "\<And>reg. R = Some reg \<Longrightarrow> registry_ok u n reg"
    and ein: "\<And>e. entries_in R e = (if e = en then ?es' else bucket s n e)"
    and found: "if h \<in> b_handler ` set (bucket s n en)
         then \<exists>e \<in> set (bucket s n en). found = Some e \<and> b_handler e = h
         else found = None"
    by blast
  have d: "distinct (listeners s n)" by (rule inv_distinct_listeners [OF assms(1)])
  \<comment> \<open>the listeners that remain\<close>
  have flt: "map snd (filter (\<lambda>tr. r_eventName (snd tr) = e) (filter ?P (listeners s n)))
               = map b_responder (entries_in R e)" for e
  proof (cases "e = en")
    case False
    have "filter (\<lambda>tr. r_eventName (snd tr) = e) (filter ?P (listeners s n))
        = filter (\<lambda>tr. r_eventName (snd tr) = e) (listeners s n)"
      unfolding filter_filter using False by (intro filter_cong) auto
    then show ?thesis
      using False inv_listeners_filter [OF assms(1), of e n] by (simp add: ein)
  next
    case True
    have "filter (\<lambda>tr. r_eventName (snd tr) = en) (filter ?P (listeners s n))
        = filter ((\<lambda>r. r_handler r \<noteq> h) \<circ> snd)
            (filter (\<lambda>tr. r_eventName (snd tr) = en) (listeners s n))"
      unfolding filter_filter by (intro filter_cong) auto
    then have "map snd (filter (\<lambda>tr. r_eventName (snd tr) = en) (filter ?P (listeners s n)))
        = filter (\<lambda>r. r_handler r \<noteq> h) (map b_responder (bucket s n en))"
      by (simp add: filter_map inv_listeners_filter [OF assms(1), of en n, symmetric])
    also have "\<dots> = map b_responder (filter ((\<lambda>r. r_handler r \<noteq> h) \<circ> b_responder)
                                         (bucket s n en))"
      by (simp add: filter_map)
    also have "filter ((\<lambda>r. r_handler r \<noteq> h) \<circ> b_responder) (bucket s n en) = ?es'"
      using inv_binding(2) [OF assms(1)] by (intro filter_cong) auto
    finally show ?thesis using True by (simp add: ein)
  qed
  show ?thesis
  proof (cases "h \<in> b_handler ` set (bucket s n en)")
    case False
    with found have fn: "found = None" by simp
    have st: "stopObserving p s n (Some en) (Some h) = Inr (s1, n)"
      by (simp add: stopObserving_def un fn)
    have same: "filter ?P (listeners s n) = listeners s n"
    proof -
      have "?P tr" if "tr \<in> set (listeners s n)" for tr
      proof
        assume a: "r_eventName (snd tr) = en \<and> r_handler (snd tr) = h"
        from inv_listener [OF assms(1) that] obtain b where
          b: "b \<in> set (bucket s n en)" "snd tr = b_responder b"
          using a by (cases tr) auto
        with inv_binding(2) [OF assms(1) b(1)] a have "b_handler b = h" by simp
        with b(1) False show False by auto
      qed
      then show ?thesis by (simp add: filter_id_conv)
    qed
    have l1: "listeners s1 = (listeners s)(n := filter ?P (listeners s n))"
      unfolding same by (simp add: fields)
    from after_removal [OF assms(1) g fields(5) l1 fields(4) fields(1,2) R flt] st
    show ?thesis by (auto simp: ein)
  next
    case True
    with found obtain b where b: "b \<in> set (bucket s n en)" "found = Some b" "b_handler b = h"
      by auto
    let ?x = "(actualEventName en, b_responder b)"
    let ?s' = "removeEvent s1 n en (b_responder b)"
    have st: "stopObserving p s n (Some en) (Some h) = Inr (?s', n)"
      by (simp add: stopObserving_def un b)
    have eq: "filter (\<lambda>tr. tr \<noteq> ?x) (listeners s n) = filter ?P (listeners s n)"
    proof (rule filter_cong [OF refl])
      fix tr assume tr: "tr \<in> set (listeners s n)"
      show "(tr \<noteq> ?x) = ?P tr"
      proof (cases "r_eventName (snd tr) = en \<and> r_handler (snd tr) = h")
        case False
        then show ?thesis using inv_binding(1,2) [OF assms(1) b(1)] b(3) by auto
      next
        case a: True
        from inv_listener [OF assms(1) tr] obtain c where
          c: "c \<in> set (bucket s n en)" "tr = (actualEventName en, b_responder c)"
          using a by auto
        with inv_binding(2) [OF assms(1) c(1)] a have "b_handler c = h" by simp
        with inv_binding(4) [OF assms(1) b(1)] b(1,3) c(1) have "c = b"
          by (auto simp: distinct_map dest: inj_onD)
        with c a show ?thesis by simp
      qed
    qed
    have l1: "listeners ?s' = (listeners s)(n := filter ?P (listeners s n))"
      unfolding eq [symmetric]
      using d by (simp add: removeEvent_listeners fields remove1_distinct_filter)
    have c1: "cache ?s' = (cache s)(u := R)" by (simp add: removeEvent_listeners fields)
    have f1: "fresh ?s' = fresh s" by (simp add: removeEvent_listeners fields)
    have i1: "UID ?s' = UID s2" "prototypeUID ?s' = prototypeUID s2"
      by (simp_all add: removeEvent_listeners fields)
    from after_removal [OF assms(1) g c1 l1 f1 i1 R flt] st
    show ?thesis by (auto simp: ein)
  qed
qed

lemma getUniqueElementID_same:
  assumes "getUniqueElementID s n = (s2, u)" "prototypeUID t = prototypeUID s2"
  shows "getUniqueElementID t n = (t, u)"
  using assms
  by (auto simp: getUniqueElementID_def split: if_splits option.splits)

lemma destroy_after:
  assumes "getUniqueElementID s n = (s2, u)" "prototypeUID t = prototypeUID s2"
  shows "destroyRegistryForElement t n None = t\<lparr> cache := (cache t)(u := None) \<rparr>"
  by (simp add: destroyRegistryForElement_def getUniqueElementID_same [OF assms])

lemma inv_name_listeners:
  assumes "inv s"
  shows "filter (\<lambda>x. x \<notin> (\<lambda>e. (actualEventName en, b_responder e)) ` set (bucket s n en))
           (listeners s n)
         = filter (\<lambda>tr. r_eventName (snd tr) \<noteq> en) (listeners s n)"
proof (rule filter_cong [OF refl])
  fix tr assume tr: "tr \<in> set (listeners s n)"
  show "(tr \<notin> (\<lambda>e. (actualEventName en, b_responder e)) ` set (bucket s n en))
          = (r_eventName (snd tr) \<noteq> en)"
  proof (cases "r_eventName (snd tr) = en")
    case True
    with inv_listener [OF assms tr] show ?thesis by auto
  next
    case False
    then show ?thesis using inv_binding(1) [OF assms] by auto
  qed
qed

text \<open>What \<open>stopObserving(element, eventName)\<close> does.\<close>

lemma stopObservingEventName_effect:
  assumes "inv s" "en \<noteq> ''element''" "objectPrototype en = None \<or> bucket s n en \<noteq> []"
  shows "\<exists>s'. stopObservingEventName s n en = Inr s' \<and> inv s'
     \<and> (\<forall>m e. bucket s' m e = (if m = n \<and> e = en then [] else bucket s m e))
     \<and> (\<forall>m. listeners s' m =
           (if m = n then filter (\<lambda>tr. r_eventName (snd tr) \<noteq> en) (listeners s n)
            else listeners s m))"
proof -
  obtain s2 u where g: "getUniqueElementID s n = (s2, u)"
    by (cases "getUniqueElementID s n")
  note fr = getUniqueElementID_frame [OF g]
  note again = getUniqueElementID_again [OF g]
  note idem = getUniqueElementID_idem [OF g]
  have inv2: "inv s2" by (rule getUniqueElementID_inv [OF assms(1) g])
  have reg_eq: "registry_of s n = cache s2 u"
    using getUniqueElementID_registry [OF assms(1) g, of n] fr(1) by (simp add: registry_of_def)
  let ?P = "\<lambda>tr. r_eventName (snd tr) \<noteq> en"
  let ?s' = "projr (stopObservingEventName s n en)"
  have d: "distinct (listeners s n)" by (rule inv_distinct_listeners [OF assms(1)])
  have other: "filter (\<lambda>tr. r_eventName (snd tr) = e) (filter ?P (listeners s n))
        = filter (\<lambda>tr. r_eventName (snd tr) = e) (listeners s n)" if "e \<noteq> en" for e
    unfolding filter_filter using that by (intro filter_cong) auto
  have this_one: "filter (\<lambda>tr. r_eventName (snd tr) = en) (filter ?P (listeners s n)) = []"
    by (simp add: filter_empty_conv)
  \<comment> \<open>the fields of the result and the registry left, case by case\<close>
  have "\<exists>R. stopObservingEventName s n en = Inr ?s' \<and> cache ?s' = (cache s)(u := R)
      \<and> listeners ?s' = (listeners s)(n := filter ?P (listeners s n))
      \<and> fresh ?s' = fresh s \<and> UID ?s' = UID s2 \<and> prototypeUID ?s' = prototypeUID s2
      \<and> (\<forall>reg. R = Some reg \<longrightarrow> registry_ok u n reg)
      \<and> (\<forall>e. entries_in R e = (if e = en then [] else bucket s n e))"
  proof (cases "cache s2 u")
    case None
    have rs: "registry_of s n = None" using None reg_eq by simp
    have l0: "listeners s n = []" by (rule inv_no_registry_no_listeners [OF assms(1) rs])
    have inh: "objectPrototype en = None" using assms(3) by (simp add: bucket_def rs)
    have st: "stopObservingEventName s n en = Inr (s2\<lparr> cache := (cache s2)(u := None) \<rparr>)"
      using None assms(2)
      by (simp add: stopObservingEventName_def getOrCreateRegistryFor_def
            destroyRegistryForElement_def g idem Let_def prop_of_def inh)
    have ll: "(listeners s)(n := []) = listeners s" using l0 by auto
    show ?thesis
      by (rule exI [of _ None]) (simp add: st fr l0 ll bucket_entries_in rs)
  next
    case (Some reg)
    have rs: "registry_of s n = Some reg" using Some reg_eq by simp
    have ok: "registry_ok u n reg"
      by (rule inv_registry_ok [OF inv2 fr(1) Some])
    have bk: "bucket s n e = entries_in (Some reg) e" for e
      by (simp add: bucket_entries_in rs)
    from registry_ok_slot [OF ok assms(2)] show ?thesis
    proof
      assume m: "map_of reg en = None"
      have b: "bucket s n en = []" using m by (simp add: bk entries_in_def)
      have ex: "list_ex (\<lambda>name. name \<noteq> ''element'') (map fst reg)"
        using ok by (auto simp: registry_ok_def list_ex_iff)
      have inh: "objectPrototype en = None" using assms(3) b by simp
      have st: "stopObservingEventName s n en = Inr s2"
        using Some m ex
        by (simp add: stopObservingEventName_def getOrCreateRegistryFor_def g again Let_def
              prop_of_def inh)
      have "filter ?P (listeners s n) = listeners s n"
        using inv_name_listeners [OF assms(1), of en n] b by simp
      then have ll: "(listeners s)(n := filter ?P (listeners s n)) = listeners s" by auto
      have cc: "(cache s)(u \<mapsto> reg) = cache s" using Some by (auto simp: fr)
      show ?thesis
        by (rule exI [of _ "Some reg"]) (use ok b in \<open>simp add: st fr ll cc bk\<close>)
    next
      assume "\<exists>es. map_of reg en = Some (Entries es) \<and> entries_ok u en es"
      then obtain es where m: "map_of reg en = Some (Entries es)" by blast
      have b: "bucket s n en = es" using m by (simp add: bk entries_in_def)
      let ?reg' = "AList.delete en reg"
      let ?t = "s2\<lparr> cache := (cache s2)(u \<mapsto> ?reg') \<rparr>"
      have dt: "distinct (listeners ?t n)" using d by (simp add: fr)
      have rm: "removeEvents ?t n en es =
          ?t\<lparr> listeners := (listeners s)(n := filter ?P (listeners s n)) \<rparr>"
        unfolding removeEvents_listeners [OF dt]
        using inv_name_listeners [OF assms(1), of en n] by (simp add: fr b)
      show ?thesis
      proof (cases "list_ex (\<lambda>name. name \<noteq> ''element'') (map fst ?reg')")
        case True
        have st: "stopObservingEventName s n en
            = Inr (?t\<lparr> listeners := (listeners s)(n := filter ?P (listeners s n)) \<rparr>)"
          using Some m True rm
          by (simp add: stopObservingEventName_def getOrCreateRegistryFor_def g again Let_def
                prop_of_def)
        have ok': "registry_ok u n ?reg'"
          using True by (intro registry_ok_delete [OF ok assms(2)]) (simp add: list_ex_iff)
        show ?thesis
          by (rule exI [of _ "Some ?reg'"])
             (use ok' in \<open>simp add: st fr bk entries_in_delete\<close>)
      next
        case False
        let ?m = "?t\<lparr> listeners := (listeners s)(n := filter ?P (listeners s n)) \<rparr>"
        have "destroyRegistryForElement ?m n None = ?m\<lparr> cache := (cache ?m)(u := None) \<rparr>"
          by (rule destroy_after [OF g]) simp
        then have st: "stopObservingEventName s n en
            = Inr (?m\<lparr> cache := (cache ?m)(u := None) \<rparr>)"
          using Some m False rm
          by (simp add: stopObservingEventName_def getOrCreateRegistryFor_def g again Let_def
                prop_of_def)
        have others: "entries_in (Some reg) e = []" if "e \<noteq> en" for e
          using False by (intro registry_ok_delete_last [OF ok _ that]) (simp add: list_ex_iff)
        show ?thesis
          by (rule exI [of _ None]) (use others in \<open>simp add: st fr bk\<close>)
      qed
    qed
  qed
  then obtain R where ret: "stopObservingEventName s n en = Inr ?s'"
    and c: "cache ?s' = (cache s)(u := R)"
    and l: "listeners ?s' = (listeners s)(n := filter ?P (listeners s n))"
    and f: "fresh ?s' = fresh s" and i: "UID ?s' = UID s2" "prototypeUID ?s' = prototypeUID s2"
    and R: "\<And>reg. R = Some reg \<Longrightarrow> registry_ok u n reg"
    and ein: "\<And>e. entries_in R e = (if e = en then [] else bucket s n e)"
    by auto
  have flt: "map snd (filter (\<lambda>tr. r_eventName (snd tr) = e) (filter ?P (listeners s n)))
               = map b_responder (entries_in R e)" for e
  proof (cases "e = en")
    case True
    then show ?thesis using this_one by (simp add: ein)
  next
    case False
    then show ?thesis
      using other [OF False] inv_listeners_filter [OF assms(1), of e n] by (simp add: ein)
  qed
  note ar = after_removal [OF assms(1) g c l f i R flt]
  have "inv ?s'" by (rule ar(1))
  moreover have "\<forall>m e. bucket ?s' m e = (if m = n \<and> e = en then [] else bucket s m e)"
    by (auto simp: ar(2) ein)
  moreover have "\<forall>m. listeners ?s' m =
           (if m = n then filter ?P (listeners s n) else listeners s m)"
    by (simp add: ar(3))
  ultimately show ?thesis using ret by (intro exI [of _ ?s'] conjI)
qed

lemma removed_Cons:
  "removed ((k, sl) # reg) =
     (if k = ''element'' then {} else (\<lambda>e. (actualEventName k, b_responder e)) ` set (entries_of sl))
       \<union> removed reg"
  by (auto simp: removed_def)

lemma fold_registry:
  assumes "distinct (listeners t n)"
  shows "fold (\<lambda>(eventName, sl) s'.
                 if eventName = ''element'' then s'
                 else removeEvents s' n eventName (entries_of sl)) reg t
         = t\<lparr> listeners := (listeners t)(n := filter (\<lambda>x. x \<notin> removed reg) (listeners t n)) \<rparr>"
  using assms
proof (induction reg arbitrary: t)
  case Nil
  then show ?case by (simp add: removed_def)
next
  case (Cons a reg)
  obtain k sl where a: "a = (k, sl)" by (cases a)
  let ?g = "(\<lambda>e. (actualEventName k, b_responder e)) ` set (entries_of sl)"
  let ?l1 = "if k = ''element'' then listeners t n
             else filter (\<lambda>x. x \<notin> ?g) (listeners t n)"
  let ?t1 = "t\<lparr> listeners := (listeners t)(n := ?l1) \<rparr>"
  have step: "(if k = ''element'' then t else removeEvents t n k (entries_of sl)) = ?t1"
    using removeEvents_listeners [OF Cons.prems, of k "entries_of sl"] by simp
  have d1: "distinct (listeners ?t1 n)" using Cons.prems by simp
  have ff: "filter (\<lambda>x. x \<notin> removed reg) ?l1
          = filter (\<lambda>x. x \<notin> removed (a # reg)) (listeners t n)"
    unfolding a removed_Cons by (auto intro: filter_cong)
  have "fold (\<lambda>(eventName, sl) s'.
                 if eventName = ''element'' then s'
                 else removeEvents s' n eventName (entries_of sl)) (a # reg) t
      = fold (\<lambda>(eventName, sl) s'.
                 if eventName = ''element'' then s'
                 else removeEvents s' n eventName (entries_of sl)) reg ?t1"
    by (simp only: fold_simps a case_prod_conv step o_apply)
  also have "\<dots> = ?t1\<lparr> listeners := (listeners ?t1)
                 (n := filter (\<lambda>x. x \<notin> removed reg) (listeners ?t1 n)) \<rparr>"
    by (rule Cons.IH [OF d1])
  also have "\<dots> = t\<lparr> listeners := (listeners t)
                 (n := filter (\<lambda>x. x \<notin> removed (a # reg)) (listeners t n)) \<rparr>"
    using ff by simp
  finally show ?case .
qed

text \<open>What \<open>stopObserving(element)\<close> does.\<close>

lemma stopObservingElement_effect:
  assumes "inv s"
  shows "inv (stopObservingElement s n)
     \<and> (\<forall>m e. bucket (stopObservingElement s n) m e = (if m = n then [] else bucket s m e))
     \<and> (\<forall>m. listeners (stopObservingElement s n) m = (if m = n then [] else listeners s m))"
proof -
  obtain s2 u where g: "getUniqueElementID s n = (s2, u)"
    by (cases "getUniqueElementID s n")
  note fr = getUniqueElementID_frame [OF g]
  have inv2: "inv s2" by (rule getUniqueElementID_inv [OF assms(1) g])
  have reg_eq: "registry_of s n = cache s2 u"
    using getUniqueElementID_registry [OF assms(1) g, of n] fr(1) by (simp add: registry_of_def)
  let ?s' = "stopObservingElement s n"
  let ?P = "\<lambda>x :: string \<times> responder. False"
  have "cache ?s' = (cache s)(u := None)
      \<and> listeners ?s' = (listeners s)(n := filter ?P (listeners s n))
      \<and> fresh ?s' = fresh s \<and> UID ?s' = UID s2 \<and> prototypeUID ?s' = prototypeUID s2"
  proof (cases "cache s2 u")
    case None
    have rs: "registry_of s n = None" using None reg_eq by simp
    have l0: "listeners s n = []" by (rule inv_no_registry_no_listeners [OF assms(1) rs])
    have st: "?s' = s2" using None by (simp add: stopObservingElement_def g)
    have ll: "(listeners s)(n := []) = listeners s" using l0 by auto
    have cc: "(cache s)(u := None) = cache s" using None by (auto simp: fr)
    show ?thesis by (simp add: st fr ll cc)
  next
    case (Some reg)
    have rs: "registry_of s n = Some reg" using Some reg_eq by simp
    let ?t = "s2\<lparr> cache := (cache s2)(u := None) \<rparr>"
    have dt: "distinct (listeners ?t n)"
      using inv_distinct_listeners [OF assms(1), of n] by (simp add: fr)
    have all: "x \<in> removed reg" if x: "x \<in> set (listeners s n)" for x
    proof -
      from inv_listener [OF assms(1) x] obtain b where
        b: "b \<in> set (bucket s n (r_eventName (snd x)))"
           "x = (actualEventName (r_eventName (snd x)), b_responder b)"
        by blast
      let ?k = "r_eventName (snd x)"
      from b(1) have ne: "bucket s n ?k \<noteq> []" by auto
      then have k: "?k \<noteq> ''element''" using inv_bucket_element [OF assms(1)] by metis
      from ne obtain es where es: "map_of reg ?k = Some (Entries es)" "bucket s n ?k = es"
        by (auto simp: bucket_def rs split: option.splits slot.splits)
      then have "(?k, Entries es) \<in> set reg" by (auto dest: map_of_SomeD)
      with b es k show ?thesis
        unfolding removed_def by (auto intro!: exI [of _ ?k] exI [of _ "Entries es"] exI [of _ b])
    qed
    then have e: "filter (\<lambda>x. x \<notin> removed reg) (listeners s n) = []"
      by (simp add: filter_empty_conv)
    have le: "filter (\<lambda>x. x \<notin> removed reg) (listeners ?t n) = []"
      using e by (simp add: fr)
    have "?s' = fold (\<lambda>(eventName, sl) s'.
                 if eventName = ''element'' then s'
                 else removeEvents s' n eventName (entries_of sl)) reg ?t"
      using Some by (simp add: stopObservingElement_def g destroyRegistryForElement_def)
    then have st: "?s' = ?t\<lparr> listeners := (listeners ?t)(n := []) \<rparr>"
      unfolding fold_registry [OF dt] le .
    show ?thesis by (simp add: st fr)
  qed
  then have c: "cache ?s' = (cache s)(u := None)"
    and l: "listeners ?s' = (listeners s)(n := filter ?P (listeners s n))"
    and f: "fresh ?s' = fresh s" and i: "UID ?s' = UID s2" "prototypeUID ?s' = prototypeUID s2"
    by simp_all
  have R: "registry_ok u n reg" if "None = Some reg" for reg using that by simp
  have flt: "map snd (filter (\<lambda>tr. r_eventName (snd tr) = e) (filter ?P (listeners s n)))
               = map b_responder (entries_in None e)" for e
    by simp
  from after_removal [OF assms(1) g c l f i R flt]
  show ?thesis by auto
qed

subsection \<open>Sequences of calls\<close>

lemma handlers_for_mem: "h \<in> set (handlers_for A n en) \<longleftrightarrow> (n, en, h) \<in> set A"
  by (force simp: handlers_for_def)

lemma handlers_for_append:
  "handlers_for (A @ [(n, en, h)]) m e =
     (if m = n \<and> e = en then handlers_for A m e @ [h] else handlers_for A m e)"
  by (auto simp: handlers_for_def)

lemma handlers_for_filter:
  assumes "\<And>t. t \<in> set A \<Longrightarrow> fst t = m \<Longrightarrow> fst (snd t) = e \<Longrightarrow> P t = Q (snd (snd t))"
  shows "handlers_for (filter P A) m e = filter Q (handlers_for A m e)"
proof -
  have "filter (\<lambda>t. fst t = m \<and> fst (snd t) = e) (filter P A)
      = filter (Q \<circ> (\<lambda>t. snd (snd t))) (filter (\<lambda>t. fst t = m \<and> fst (snd t) = e) A)"
    unfolding filter_filter using assms by (intro filter_cong) auto
  then show ?thesis by (simp add: handlers_for_def filter_map)
qed

lemma step_agrees:
  assumes "inv s" "agrees s A" "op_ok x"
  shows "\<exists>s'. run_op p s x = Inr s' \<and> inv s' \<and> agrees s' (active_after A x)"
proof (cases x)
  case (Observe n en h)
  with assms(3) have en: "en \<noteq> ''element''"
    and own: "objectPrototype en = None \<or> bucket s n en \<noteq> []" by simp_all
  have mem: "(h \<in> b_handler ` set (bucket s n en)) = ((n, en, h) \<in> set A)"
    using assms(2) handlers_for_mem [of h A n en] unfolding agrees_def
    by (metis set_map)
  from observe_effect [OF assms(1) en own, of h] obtain s' where
    o: "observe s n en h = Inr (s', n)" and i: "inv s'"
    and others': "\<forall>m e. (m, e) \<noteq> (n, en) \<longrightarrow> bucket s' m e = bucket s m e"
    and here': "if h \<in> b_handler ` set (bucket s n en) then s' = s
         else bucket s' n en = bucket s n en @
                [\<lparr> b_responder = createResponder (fresh s) (snd (getUniqueElementID s n)) en h,
                   b_handler = h \<rparr>]
            \<and> listeners s' n = listeners s n @
                [(actualEventName en,
                  createResponder (fresh s) (snd (getUniqueElementID s n)) en h)]"
    by blast
  have others: "(m, e) \<noteq> (n, en) \<Longrightarrow> bucket s' m e = bucket s m e" for m e
    using others' by blast
  have here: "if h \<in> b_handler ` set (bucket s n en) then s' = s
         else bucket s' n en = bucket s n en @
                [\<lparr> b_responder = createResponder (fresh s) (snd (getUniqueElementID s n)) en h,
                   b_handler = h \<rparr>]"
    using here' by (simp split: if_splits)
  have "agrees s' (active_after A x)"
  proof (cases "(n, en, h) \<in> set A")
    case True
    with here mem have "s' = s" by simp
    with True assms(2) show ?thesis by (simp add: Observe)
  next
    case False
    with here mem have b: "map b_handler (bucket s' n en) = map b_handler (bucket s n en) @ [h]"
      by simp
    show ?thesis
      unfolding agrees_def
    proof (intro allI)
      fix m e
      show "map b_handler (bucket s' m e) = handlers_for (active_after A x) m e"
        using False b others [of m e] assms(2)
        by (cases "(m, e) = (n, en)") (auto simp: Observe handlers_for_append agrees_def)
    qed
  qed
  with o i show ?thesis by (simp add: Observe)
next
  case (StopObserving n eo ho)
  show ?thesis
  proof (cases eo)
    case None
    with assms(3) StopObserving have ho: "ho = None" by (cases ho) simp_all
    let ?s' = "stopObservingElement s n"
    note eff = stopObservingElement_effect [OF assms(1), of n]
    have i: "inv ?s'" by (rule eff [THEN conjunct1])
    have b: "bucket ?s' m e = (if m = n then [] else bucket s m e)" for m e
      by (rule eff [THEN conjunct2, THEN conjunct1, rule_format])
    have "agrees ?s' (filter (\<lambda>t. fst t \<noteq> n) A)"
      unfolding agrees_def
    proof (intro allI)
      fix m e
      have "handlers_for (filter (\<lambda>t. fst t \<noteq> n) A) m e
          = filter (\<lambda>g. m \<noteq> n) (handlers_for A m e)"
        by (rule handlers_for_filter) auto
      then show "map b_handler (bucket ?s' m e) = handlers_for (filter (\<lambda>t. fst t \<noteq> n) A) m e"
        using assms(2) by (simp add: b agrees_def)
    qed
    with i show ?thesis
      by (simp add: StopObserving None ho stopObserving_def)
  next
    case (Some en)
    with assms(3) StopObserving have en: "en \<noteq> ''element''"
      and own: "objectPrototype en = None \<or> bucket s n en \<noteq> []" by simp_all
    show ?thesis
    proof (cases ho)
      case None
      from stopObservingEventName_effect [OF assms(1) en own] obtain s' where
        o: "stopObservingEventName s n en = Inr s'" and i: "inv s'"
        and b': "\<forall>m e. bucket s' m e = (if m = n \<and> e = en then [] else bucket s m e)"
        by blast
      have b: "bucket s' m e = (if m = n \<and> e = en then [] else bucket s m e)" for m e
        using b' by blast
      have "agrees s' (filter (\<lambda>t. \<not> (fst t = n \<and> fst (snd t) = en)) A)"
        unfolding agrees_def
      proof (intro allI)
        fix m e
        have "handlers_for (filter (\<lambda>t. \<not> (fst t = n \<and> fst (snd t) = en)) A) m e
            = filter (\<lambda>g. \<not> (m = n \<and> e = en)) (handlers_for A m e)"
          by (rule handlers_for_filter) auto
        then show "map b_handler (bucket s' m e)
            = handlers_for (filter (\<lambda>t. \<not> (fst t = n \<and> fst (snd t) = en)) A) m e"
          using assms(2) by (simp add: b agrees_def)
      qed
      with i show ?thesis
        by (simp add: StopObserving Some None stopObserving_def o)
    next
      case (Some h)
      from stopObserving_handler_effect [OF assms(1) en own, of p h] obtain s' where
        o: "stopObserving p s n (Some en) (Some h) = Inr (s', n)" and i: "inv s'"
        and b': "\<forall>m e. bucket s' m e =
           (if m = n \<and> e = en then filter (\<lambda>b. b_handler b \<noteq> h) (bucket s n en)
            else bucket s m e)"
        by blast
      have b: "bucket s' m e =
           (if m = n \<and> e = en then filter (\<lambda>b. b_handler b \<noteq> h) (bucket s n en)
            else bucket s m e)" for m e
        using b' by blast
      have "agrees s' (filter (\<lambda>t. t \<noteq> (n, en, h)) A)"
        unfolding agrees_def
      proof (intro allI)
        fix m e
        have "handlers_for (filter (\<lambda>t. t \<noteq> (n, en, h)) A) m e
            = filter (\<lambda>g. \<not> (m = n \<and> e = en \<and> g = h)) (handlers_for A m e)"
          by (rule handlers_for_filter) auto
        moreover have "map b_handler (filter (\<lambda>b. b_handler b \<noteq> h) (bucket s n en))
            = filter (\<lambda>g. g \<noteq> h) (map b_handler (bucket s n en))"
          by (simp add: filter_map o_def)
        ultimately show "map b_handler (bucket s' m e)
            = handlers_for (filter (\<lambda>t. t \<noteq> (n, en, h)) A) m e"
          using assms(2) by (auto simp: b agrees_def)
      qed
      with o i show ?thesis
        by (simp add: StopObserving \<open>eo = Some en\<close> Some)
    qed
  qed
qed

lemma run_agrees:
  assumes "inv s" "agrees s A" "\<forall>x \<in> set ops. op_ok x"
  shows "\<exists>s'. run_ops p s ops = Inr s' \<and> inv s' \<and> agrees s' (foldl active_after A ops)"
  using assms
proof (induction ops arbitrary: s A)
  case Nil
  then show ?case by simp
next
  case (Cons x ops)
  from step_agrees [OF Cons.prems(1,2), of x p] Cons.prems(3)
  obtain s1 where s1: "run_op p s x = Inr s1" "inv s1" "agrees s1 (active_after A x)"
    by auto
  from Cons.IH [OF s1(2,3)] Cons.prems(3)
  obtain s' where "run_ops p s1 ops = Inr s'" "inv s'"
    "agrees s' (foldl active_after (active_after A x) ops)"
    by auto
  with s1(1) show ?case by simp
qed

section \<open>Dispatch on a node\<close>

lemma observe_element_fails:
  assumes "inv s"
  shows "observe s n ''element'' h = Inl TypeError"
proof -
  obtain s2 u where g: "getUniqueElementID s n = (s2, u)"
    by (cases "getUniqueElementID s n")
  note fr = getUniqueElementID_frame [OF g]
  note again = getUniqueElementID_again [OF g]
  note idem = getUniqueElementID_idem [OF g]
  have inv2: "inv s2" by (rule getUniqueElementID_inv [OF assms g])
  show ?thesis
  proof (cases "cache s2 u")
    case None
    then show ?thesis
      by (simp add: observe_def register_def getOrCreateRegistryFor_def g idem Let_def
            prop_of_def)
  next
    case (Some reg)
    from inv_registry_ok [OF inv2 fr(1) Some]
    have "map_of reg ''element'' = Some (Element n)" by (simp add: registry_ok_def)
    with Some show ?thesis
      by (simp add: observe_def register_def getOrCreateRegistryFor_def g again Let_def
            prop_of_def)
  qed
qed

lemma objectPrototype_element: "objectPrototype ''element'' = None"
  by (simp add: objectPrototype_def)

lemma observe_inherited_fails:
  assumes "inv s" "objectPrototype en = Some l" "bucket s n en = []"
  shows "observe s n en h = Inl TypeError"
proof -
  obtain s2 u where g: "getUniqueElementID s n = (s2, u)"
    by (cases "getUniqueElementID s n")
  note fr = getUniqueElementID_frame [OF g]
  note again = getUniqueElementID_again [OF g]
  note idem = getUniqueElementID_idem [OF g]
  have inv2: "inv s2" by (rule getUniqueElementID_inv [OF assms(1) g])
  have reg_eq: "registry_of s n = cache s2 u"
    using getUniqueElementID_registry [OF assms(1) g, of n] fr(1) by (simp add: registry_of_def)
  have en: "en \<noteq> ''element''" using assms(2) objectPrototype_element by auto
  show ?thesis
  proof (cases "cache s2 u")
    case None
    then show ?thesis
      using en assms(2)
      by (simp add: observe_def register_def getOrCreateRegistryFor_def g idem Let_def
            prop_of_def)
  next
    case (Some reg)
    have ok: "registry_ok u n reg" by (rule inv_registry_ok [OF inv2 fr(1) Some])
    have "map_of reg en = None"
    proof (rule ccontr)
      assume "map_of reg en \<noteq> None"
      with registry_ok_slot [OF ok en] obtain es where
        "map_of reg en = Some (Entries es)" "entries_ok u en es" by auto
      then have "bucket s n en \<noteq> []"
        by (simp add: bucket_def reg_eq Some entries_ok_def)
      with assms(3) show False by simp
    qed
    with Some show ?thesis
      using assms(2)
      by (simp add: observe_def register_def getOrCreateRegistryFor_def g again Let_def
            prop_of_def)
  qed
qed

lemma observe_returns:
  assumes "inv s" "observe s n en h = Inr (s1, x)"
  shows "en \<noteq> ''element''" "objectPrototype en = None \<or> bucket s n en \<noteq> []"
proof -
  show "en \<noteq> ''element''" using assms observe_element_fails by fastforce
  show "objectPrototype en = None \<or> bucket s n en \<noteq> []"
  proof (rule ccontr)
    assume "\<not> ?thesis"
    then obtain l where "objectPrototype en = Some l" "bucket s n en = []" by auto
    from observe_inherited_fails [OF assms(1) this] assms(2) show False by simp
  qed
qed

lemma inv_responder_runs:
  assumes "inv s" "b \<in> set (bucket s n en)" "carries ev en"
  shows "invoke_responder (Some (cache s)) p (b_responder b) ev
           = call_handler p (b_handler b) (Some (Element n)) ev"
proof -
  from assms(2) have ne: "bucket s n en \<noteq> []" by auto
  then obtain u where u: "uid_of s n = Some u"
    using bucket_nonempty(2) by blast
  from bucket_nonempty(1) [OF ne] obtain reg where reg: "registry_of s n = Some reg" by blast
  then have c: "cache s u = Some reg" using u by (simp add: registry_of_def)
  have el: "map_of reg ''element'' = Some (Element n)"
    using inv_registry_ok [OF assms(1) u c] by (simp add: registry_ok_def)
  have "en \<noteq> ''element''" using ne inv_bucket_element [OF assms(1)] by auto
  from inv_bucket_ok [OF assms(1) u this] ne
  have "entries_ok u en (bucket s n en)" by simp
  with assms(2) obtain k where k: "b_responder b = createResponder k u en (b_handler b)"
    unfolding entries_ok_def by blast
  show ?thesis
    using assms(3) c el
    by (simp add: k createResponder_def createResponderForCustomEvent_def invoke_responder_def
          carries_def)
qed

text \<open>The listeners of a node that run for an event name, in order.\<close>

lemma run_listeners_for:
  assumes "inv s" "carries ev en"
  shows "ran_for en (run_listeners s p ev n) =
           map (\<lambda>b. \<lparr> at_node = n, by_responder = b_responder b,
                       outcome = call_handler p (b_handler b) (Some (Element n))
                                   (ev\<lparr> ev_currentTarget := Some n \<rparr>) \<rparr>)
               (bucket s n en)"
proof -
  let ?ev = "ev\<lparr> ev_currentTarget := Some n \<rparr>"
  let ?I = "\<lambda>r. \<lparr> at_node = n, by_responder = r,
                 outcome = invoke_responder (Some (cache s)) p r ?ev \<rparr>"
  have c: "carries ?ev en" using assms(2) by (simp add: carries_def)
  have "ran_for en (run_listeners s p ev n)
      = map (?I \<circ> snd) (filter (\<lambda>tr. fst tr = ev_type ev \<and> r_eventName (snd tr) = en)
                            (listeners s n))"
    by (simp add: ran_for_def run_listeners_def filter_map o_def case_prod_beta conj_commute)
  also have "filter (\<lambda>tr. fst tr = ev_type ev \<and> r_eventName (snd tr) = en) (listeners s n)
      = filter (\<lambda>tr. r_eventName (snd tr) = en) (listeners s n)"
    using inv_listener_bounds(2) [OF assms(1)] assms(2)
    by (intro filter_cong) (auto simp: carries_def)
  also have "map (?I \<circ> snd) (filter (\<lambda>tr. r_eventName (snd tr) = en) (listeners s n))
      = map ?I (map b_responder (bucket s n en))"
    unfolding inv_listeners_filter [OF assms(1), symmetric] by simp
  also have "\<dots> = map (\<lambda>b. \<lparr> at_node = n, by_responder = b_responder b,
                       outcome = call_handler p (b_handler b) (Some (Element n)) ?ev \<rparr>)
               (bucket s n en)"
    using inv_responder_runs [OF assms(1) _ c] by simp
  finally show ?thesis .
qed


lemma invocations_at:
  assumes "inv s" "carries ev en"
  shows "invocations en h (run_listeners s p ev n) =
           map (\<lambda>b. \<lparr> at_node = n, by_responder = b_responder b,
                       outcome = call_handler p h (Some (Element n))
                                   (ev\<lparr> ev_currentTarget := Some n \<rparr>) \<rparr>)
               (filter (\<lambda>b. b_handler b = h) (bucket s n en))"
proof -
  let ?F = "\<lambda>b. \<lparr> at_node = n, by_responder = b_responder b,
                 outcome = call_handler p (b_handler b) (Some (Element n))
                             (ev\<lparr> ev_currentTarget := Some n \<rparr>) \<rparr>"
  have "invocations en h (run_listeners s p ev n)
      = filter (\<lambda>it. r_handler (by_responder it) = h) (ran_for en (run_listeners s p ev n))"
    by (simp add: invocations_def ran_for_def conj_commute)
  also have "\<dots> = map ?F (filter (\<lambda>b. r_handler (b_responder b) = h) (bucket s n en))"
    by (simp add: run_listeners_for [OF assms] filter_map o_def)
  also have "filter (\<lambda>b. r_handler (b_responder b) = h) (bucket s n en)
      = filter (\<lambda>b. b_handler b = h) (bucket s n en)"
    using inv_binding(2) [OF assms(1)] by (intro filter_cong) auto
  also have "map ?F (filter (\<lambda>b. b_handler b = h) (bucket s n en))
      = map (\<lambda>b. \<lparr> at_node = n, by_responder = b_responder b,
                       outcome = call_handler p h (Some (Element n))
                                   (ev\<lparr> ev_currentTarget := Some n \<rparr>) \<rparr>)
               (filter (\<lambda>b. b_handler b = h) (bucket s n en))"
    by (rule map_cong) auto
  finally show ?thesis .
qed

lemma filter_handler_unique:
  assumes "distinct (map b_handler es)" "b \<in> set es"
  shows "filter (\<lambda>c. b_handler c = b_handler b) es = [b]"
  using assms
proof (induction es)
  case Nil
  then show ?case by simp
next
  case (Cons a es)
  show ?case
  proof (cases "a = b")
    case True
    have "b_handler b \<notin> b_handler ` set es"
      using Cons.prems(1) True by simp
    then have "filter (\<lambda>c. b_handler c = b_handler b) es = []"
      unfolding filter_empty_conv by (metis imageI)
    with True show ?thesis by simp
  next
    case False
    with Cons.prems have "b \<in> set es" by simp
    moreover have "b_handler a \<noteq> b_handler b" using Cons.prems(1) \<open>b \<in> set es\<close> by auto
    ultimately show ?thesis using Cons.IH Cons.prems(1) by simp
  qed
qed

lemma dispatch_starts_at_target:
  "\<exists>rest. dispatchEvent s p n ev = run_listeners s p (ev\<lparr> ev_target := n \<rparr>) n @ rest"
  by (simp add: dispatchEvent_def propagation_path_def Let_def)

lemma inv_entry_iff:
  assumes "inv s"
  shows "(registry_of s n \<noteq> None) = (\<exists>en. bucket s n en \<noteq> [])"
proof
  assume "registry_of s n \<noteq> None"
  then obtain reg where reg: "registry_of s n = Some reg" by blast
  have "node_ok s n" using assms unfolding inv_def by blast
  with reg obtain u where ok: "registry_ok u n reg" unfolding node_ok_def by blast
  then obtain en where en: "en \<in> set (map fst reg)" "en \<noteq> ''element''"
    unfolding registry_ok_def by blast
  then obtain sl where sl: "map_of reg en = Some sl"
    by (cases "map_of reg en") (auto simp: map_of_eq_None_iff)
  with ok en(2) obtain es where "sl = Entries es" "es \<noteq> []"
    unfolding registry_ok_def entries_ok_def by blast
  with sl reg have "bucket s n en \<noteq> []" by (simp add: bucket_def)
  then show "\<exists>en. bucket s n en \<noteq> []" by blast
next
  assume "\<exists>en. bucket s n en \<noteq> []"
  then show "registry_of s n \<noteq> None" using bucket_nonempty(1) by blast
qed

lemma inv_entry_iff_listeners:
  assumes "inv s"
  shows "(registry_of s n \<noteq> None) = (listeners s n \<noteq> [])"
proof
  assume "registry_of s n \<noteq> None"
  then obtain en where "bucket s n en \<noteq> []"
    using inv_entry_iff [OF assms] by blast
  then have "map snd (filter (\<lambda>tr. r_eventName (snd tr) = en) (listeners s n)) \<noteq> []"
    unfolding inv_listeners_filter [OF assms] by simp
  then show "listeners s n \<noteq> []" by auto
next
  assume "listeners s n \<noteq> []"
  then show "registry_of s n \<noteq> None"
    using inv_no_registry_no_listeners [OF assms] by blast
qed

lemma observe_new:
  assumes "inv s" "en \<noteq> ''element''" "h \<notin> b_handler ` set (bucket s n en)"
    and "objectPrototype en = None \<or> bucket s n en \<noteq> []"
  shows "\<exists>s'. observe s n en h = Inr (s', n) \<and> inv s'
           \<and> map b_handler (bucket s' n en) = map b_handler (bucket s n en) @ [h]"
  using observe_effect [OF assms(1,2,4), of h] assms(3) by auto

lemma inv_init: "inv init"
  by (simp add: inv_def uid_ok_def node_ok_def init_def bucket_def registry_of_def uid_of_def)

lemma registry_of_init: "registry_of init n = None"
  by (simp add: registry_of_def uid_of_def init_def)

lemma bucket_init: "bucket init n en = []"
  by (simp add: bucket_def registry_of_init)

lemma carries_native: "\<not> isCustomEvent en \<Longrightarrow> carries (native_event en n) en"
  by (simp add: carries_def actualEventName_def native_event_def)

lemma click_not_custom: "\<not> isCustomEvent ''click''"
  by (simp add: isCustomEvent_def)

lemma click_own: "objectPrototype ''click'' = None \<or> bucket s n ''click'' \<noteq> []"
  by (simp add: objectPrototype_def)

lemma inv_responder_silent:
  assumes "inv s" "b \<in> set (bucket s n k)" "isCustomEvent k" "ev_eventName ev \<noteq> Some k"
  shows "invoke_responder (Some (cache s)) p (b_responder b) ev = Inr []"
proof -
  from assms(2) have ne: "bucket s n k \<noteq> []" by auto
  then obtain u where u: "uid_of s n = Some u"
    using bucket_nonempty(2) by blast
  have "k \<noteq> ''element''" using ne inv_bucket_element [OF assms(1)] by auto
  from inv_bucket_ok [OF assms(1) u this] ne
  have "entries_ok u k (bucket s n k)" by simp
  with assms(2) obtain j where j: "b_responder b = createResponder j u k (b_handler b)"
    unfolding entries_ok_def by blast
  show ?thesis
    using assms(3,4)
    by (simp add: j createResponder_def createResponderForCustomEvent_def invoke_responder_def)
qed

lemma run_listeners_by_name:
  assumes "inv s"
  shows "ran_for k (run_listeners s p ev n) =
           map (\<lambda>b. \<lparr> at_node = n, by_responder = b_responder b,
                       outcome = invoke_responder (Some (cache s)) p (b_responder b)
                                   (ev\<lparr> ev_currentTarget := Some n \<rparr>) \<rparr>)
               (if ev_type ev = actualEventName k then bucket s n k else [])"
proof -
  let ?ev = "ev\<lparr> ev_currentTarget := Some n \<rparr>"
  let ?I = "\<lambda>r. \<lparr> at_node = n, by_responder = r,
                 outcome = invoke_responder (Some (cache s)) p r ?ev \<rparr>"
  have start: "ran_for k (run_listeners s p ev n)
      = map (?I \<circ> snd) (filter (\<lambda>tr. fst tr = ev_type ev \<and> r_eventName (snd tr) = k)
                            (listeners s n))"
    by (simp add: ran_for_def run_listeners_def filter_map o_def case_prod_beta conj_commute)
  show ?thesis
  proof (cases "ev_type ev = actualEventName k")
    case True
    have "filter (\<lambda>tr. fst tr = ev_type ev \<and> r_eventName (snd tr) = k) (listeners s n)
        = filter (\<lambda>tr. r_eventName (snd tr) = k) (listeners s n)"
      using inv_listener_bounds(2) [OF assms(1)] True
      by (intro filter_cong) auto
    moreover have "map (?I \<circ> snd) (filter (\<lambda>tr. r_eventName (snd tr) = k) (listeners s n))
        = map ?I (map b_responder (bucket s n k))"
      unfolding inv_listeners_filter [OF assms(1), symmetric] by simp
    ultimately show ?thesis using True start by (simp add: o_def)
  next
    case False
    have "filter (\<lambda>tr. fst tr = ev_type ev \<and> r_eventName (snd tr) = k) (listeners s n) = []"
      unfolding filter_empty_conv
      using inv_listener_bounds(2) [OF assms(1)] False by auto
    with False start show ?thesis by simp
  qed
qed

lemma inv_fresh:
  assumes "inv s" "fresh s \<le> k"
  shows "inv (s\<lparr> fresh := k \<rparr>)"
proof -
  let ?t = "s\<lparr> fresh := k \<rparr>"
  have u: "uid_of ?t = uid_of s" by (simp add: uid_of_def fun_eq_iff)
  have r: "registry_of ?t = registry_of s"
    unfolding registry_of_def u by (simp add: fun_eq_iff cong: option.case_cong)
  have b: "bucket ?t = bucket s"
    unfolding bucket_def r by (simp add: fun_eq_iff cong: option.case_cong)
  have "node_ok ?t n" for n
  proof -
    have "node_ok s n" using assms(1) unfolding inv_def by blast
    then show ?thesis
      unfolding node_ok_def u r b using assms(2) by fastforce
  qed
  moreover have "uid_ok ?t" using assms(1) by (simp add: inv_def uid_ok_def)
  moreover have "\<forall>v. cache ?t v \<noteq> None \<longrightarrow> (\<exists>n. uid_of ?t n = Some v)"
    unfolding u using assms(1) by (simp add: inv_def)
  ultimately show ?thesis unfolding inv_def by blast
qed

section \<open>observe and stopObserving on one node\<close>

text \<open>
  The three theorems of this section start from any state that satisfies the invariant
  (the state of a fresh page does, and \<open>observe\<close> and \<open>stopObserving\<close> keep it) and
  from calls of \<open>observe\<close> that return. \<open>observe\<close> returns for every event name but
  \<open>element\<close>, the name of the registry's own slot for the node: there
  \<open>entries.push\<close> throws (\<open>observe_element_fails\<close>).
\<close>

text \<open>
  C3. After \<open>observe(N, E, H)\<close> and then \<open>stopObserving(N, E, H)\<close>: the array of
  \<open>(N, E)\<close> holds no entry with \<open>H\<close>, the other arrays of \<open>N\<close> are as they were before
  the two calls, and whatever event reaches \<open>N\<close>, no responder made for \<open>E\<close> and \<open>H\<close>
  runs. If \<open>N\<close> had no registry before, it has none afterwards and no listener is left
  on it. If no array of \<open>N\<close> held \<open>H\<close> before, none does afterwards, and no listener of
  \<open>N\<close> calls \<open>H\<close>.
\<close>

theorem observe_then_stopObserving:
  assumes "inv s" "observe s n en h = Inr (s1, x)"
    and "stopObserving p s1 n (Some en) (Some h) = Inr (s2, y)"
  shows "h \<notin> b_handler ` set (bucket s2 n en)
     \<and> (\<forall>e. e \<noteq> en \<longrightarrow> bucket s2 n e = bucket s n e)
     \<and> (\<forall>q ev. invocations en h (run_listeners s2 q ev n) = [])
     \<and> (registry_of s n = None \<longrightarrow> registry_of s2 n = None \<and> listeners s2 n = [])
     \<and> ((\<forall>e. h \<notin> b_handler ` set (bucket s n e)) \<longrightarrow>
          (\<forall>e. h \<notin> b_handler ` set (bucket s2 n e))
          \<and> (\<forall>q ev. \<forall>it \<in> set (run_listeners s2 q ev n). r_handler (by_responder it) \<noteq> h))"
proof -
  have en: "en \<noteq> ''element''" by (rule observe_returns(1) [OF assms(1,2)])
  have own: "objectPrototype en = None \<or> bucket s n en \<noteq> []"
    by (rule observe_returns(2) [OF assms(1,2)])
  from observe_effect [OF assms(1) en own, of h] assms(2)
  have inv1: "inv s1"
    and o1: "\<And>e. e \<noteq> en \<Longrightarrow> bucket s1 n e = bucket s n e"
    and b1: "if h \<in> b_handler ` set (bucket s n en) then s1 = s
         else bucket s1 n en = bucket s n en @
                [\<lparr> b_responder = createResponder (fresh s) (snd (getUniqueElementID s n)) en h,
                   b_handler = h \<rparr>]"
    by (auto split: if_splits)
  have own1: "objectPrototype en = None \<or> bucket s1 n en \<noteq> []"
    using b1 own by (auto split: if_splits)
  from stopObserving_handler_effect [OF inv1 en own1, of p h] assms(3)
  have inv2: "inv s2"
    and b2: "\<And>e. bucket s2 n e =
           (if e = en then filter (\<lambda>b. b_handler b \<noteq> h) (bucket s1 n en) else bucket s1 n e)"
    and l2: "listeners s2 n =
           filter (\<lambda>tr. \<not> (r_eventName (snd tr) = en \<and> r_handler (snd tr) = h)) (listeners s1 n)"
    by auto
  have gone: "h \<notin> b_handler ` set (bucket s2 n en)"
    by (auto simp: b2)
  have others: "bucket s2 n e = bucket s n e" if "e \<noteq> en" for e
    using that by (simp add: b2 o1)
  have norun: "invocations en h (run_listeners s2 q ev n) = []" for q ev
    by (auto simp: invocations_def run_listeners_def l2 filter_empty_conv)
  have fresh_node: "registry_of s2 n = None \<and> listeners s2 n = []" if "registry_of s n = None"
  proof -
    from that have e: "bucket s n e = []" for e by (simp add: bucket_def)
    then have "bucket s1 n en = [\<lparr> b_responder =
        createResponder (fresh s) (snd (getUniqueElementID s n)) en h, b_handler = h \<rparr>]"
      using b1 by (auto split: if_splits)
    then have "bucket s2 n e = []" for e
      using e [of e] by (simp add: b2 o1)
    then have "registry_of s2 n = None"
      using inv_entry_iff [OF inv2, of n] by simp
    then show ?thesis using inv_entry_iff_listeners [OF inv2, of n] by simp
  qed
  have nowhere: "(\<forall>e. h \<notin> b_handler ` set (bucket s2 n e))
          \<and> (\<forall>q ev. \<forall>it \<in> set (run_listeners s2 q ev n). r_handler (by_responder it) \<noteq> h)"
    if a: "\<forall>e. h \<notin> b_handler ` set (bucket s n e)"
  proof -
    have nb: "h \<notin> b_handler ` set (bucket s2 n e)" for e
      using a gone others [of e] by (cases "e = en") auto
    have "r_handler (snd tr) \<noteq> h" if "tr \<in> set (listeners s2 n)" for tr
    proof -
      from inv_listener [OF inv2 that] obtain b where
        b: "b \<in> set (bucket s2 n (r_eventName (snd tr)))" "snd tr = b_responder b"
        by (cases tr) auto
      from inv_binding(2) [OF inv2 b(1)] b(2) nb b(1) show ?thesis by force
    qed
    then have "\<forall>q ev. \<forall>it \<in> set (run_listeners s2 q ev n). r_handler (by_responder it) \<noteq> h"
      by (fastforce simp: run_listeners_def)
    with nb show ?thesis by blast
  qed
  from gone others norun fresh_node nowhere show ?thesis by blast
qed

theorem observe_then_stopObserving_witness:
  "inv init
   \<and> (\<exists>s1 s2. observe init (Elem 1) ''click'' (Fn 7) = Inr (s1, Elem 1)
        \<and> stopObserving page s1 (Elem 1) (Some ''click'') (Some (Fn 7)) = Inr (s2, Elem 1)
        \<and> bucket s1 (Elem 1) ''click'' \<noteq> []
        \<and> bucket s2 (Elem 1) ''click'' = []
        \<and> registry_of s2 (Elem 1) = None \<and> listeners s2 (Elem 1) = []
        \<and> run_listeners s2 page (native_event ''click'' (Elem 1)) (Elem 1) = [])"
proof -
  have ne: "''click'' \<noteq> ''element''" by simp
  note r0 = registry_of_init [of "Elem 1"]
  have n7: "Fn 7 \<notin> b_handler ` set (bucket init (Elem 1) ''click'')"
    unfolding bucket_init by simp
  from observe_new [OF inv_init ne n7 click_own [of init "Elem 1"]]
  obtain s1 where s1: "observe init (Elem 1) ''click'' (Fn 7) = Inr (s1, Elem 1) \<and> inv s1
      \<and> map b_handler (bucket s1 (Elem 1) ''click'')
          = map b_handler (bucket init (Elem 1) ''click'') @ [Fn 7]" ..
  note o1 = s1 [THEN conjunct1] and i1 = s1 [THEN conjunct2, THEN conjunct1]
  have b1: "bucket s1 (Elem 1) ''click'' \<noteq> []"
    using s1 [THEN conjunct2, THEN conjunct2] by auto
  from stopObserving_handler_effect [OF i1 ne click_own [of s1 "Elem 1"], of page "Fn 7"]
  obtain s2 where o2: "stopObserving page s1 (Elem 1) (Some ''click'') (Some (Fn 7))
      = Inr (s2, Elem 1)"
    by auto
  note t = observe_then_stopObserving [OF inv_init o1 o2]
  from t [THEN conjunct2, THEN conjunct2, THEN conjunct2, THEN conjunct1, rule_format, OF r0]
  have gone: "registry_of s2 (Elem 1) = None" "listeners s2 (Elem 1) = []"
    by simp_all
  then have "bucket s2 (Elem 1) ''click'' = []"
    "run_listeners s2 page (native_event ''click'' (Elem 1)) (Elem 1) = []"
    by (simp_all add: bucket_def run_listeners_def)
  with o1 o2 b1 gone
  have "\<exists>s1 s2. observe init (Elem 1) ''click'' (Fn 7) = Inr (s1, Elem 1)
        \<and> stopObserving page s1 (Elem 1) (Some ''click'') (Some (Fn 7)) = Inr (s2, Elem 1)
        \<and> bucket s1 (Elem 1) ''click'' \<noteq> []
        \<and> bucket s2 (Elem 1) ''click'' = []
        \<and> registry_of s2 (Elem 1) = None \<and> listeners s2 (Elem 1) = []
        \<and> run_listeners s2 page (native_event ''click'' (Elem 1)) (Elem 1) = []"
    by (intro exI [of _ s1] exI [of _ s2] conjI)
  with inv_init show ?thesis by (rule conjI)
qed

text \<open>
  C4. When \<open>observe(N, E, H)\<close> has returned, a second \<open>observe(N, E, H)\<close> returns \<open>N\<close> and
  leaves the state as it is; the array of \<open>(N, E)\<close> holds exactly one entry with \<open>H\<close>;
  and when an event that carries \<open>E\<close> is dispatched on \<open>N\<close>, the dispatch begins with the
  listeners of \<open>N\<close>, among which exactly one responder made for \<open>E\<close> and \<open>H\<close> runs, and it
  calls \<open>H\<close> with \<open>N\<close> as context and the event as argument.
\<close>

theorem observe_twice_one_binding:
  assumes "inv s" "observe s n en h = Inr (s1, x)"
  shows "x = n \<and> observe s1 n en h = Inr (s1, n)
     \<and> (\<exists>b. filter (\<lambda>b. b_handler b = h) (bucket s1 n en) = [b])
     \<and> (\<forall>p ev. carries ev en \<longrightarrow>
           (\<exists>rest. dispatchEvent s1 p n ev = run_listeners s1 p (ev\<lparr> ev_target := n \<rparr>) n @ rest)
           \<and> (\<exists>r. invocations en h (run_listeners s1 p (ev\<lparr> ev_target := n \<rparr>) n) =
                    [\<lparr> at_node = n, by_responder = r,
                       outcome = call_handler p h (Some (Element n))
                                   (ev\<lparr> ev_target := n, ev_currentTarget := Some n \<rparr>) \<rparr>]))"
proof -
  have en: "en \<noteq> ''element''" by (rule observe_returns(1) [OF assms])
  have own: "objectPrototype en = None \<or> bucket s n en \<noteq> []"
    by (rule observe_returns(2) [OF assms])
  from observe_effect [OF assms(1) en own, of h] assms(2)
  have x: "x = n" and inv1: "inv s1"
    and b1: "if h \<in> b_handler ` set (bucket s n en) then s1 = s
         else bucket s1 n en = bucket s n en @
                [\<lparr> b_responder = createResponder (fresh s) (snd (getUniqueElementID s n)) en h,
                   b_handler = h \<rparr>]"
    by (auto split: if_splits)
  have mem: "h \<in> b_handler ` set (bucket s1 n en)"
    using b1 by (auto split: if_splits)
  then obtain b where b: "b \<in> set (bucket s1 n en)" "b_handler b = h" by auto
  have own1: "objectPrototype en = None \<or> bucket s1 n en \<noteq> []" using mem by auto
  from observe_effect [OF inv1 en own1, of h] mem
  have again: "observe s1 n en h = Inr (s1, n)" by auto
  have one: "filter (\<lambda>c. b_handler c = h) (bucket s1 n en) = [b]"
    using filter_handler_unique [OF inv_binding(4) [OF inv1 b(1)] b(1)] b(2) by simp
  have run: "\<exists>r. invocations en h (run_listeners s1 p (ev\<lparr> ev_target := n \<rparr>) n) =
                    [\<lparr> at_node = n, by_responder = r,
                       outcome = call_handler p h (Some (Element n))
                                   (ev\<lparr> ev_target := n, ev_currentTarget := Some n \<rparr>) \<rparr>]"
    if "carries ev en" for p ev
  proof -
    from that have c: "carries (ev\<lparr> ev_target := n \<rparr>) en" by (simp add: carries_def)
    show ?thesis
      unfolding invocations_at [OF inv1 c] one by simp
  qed
  from x again one run dispatch_starts_at_target show ?thesis by blast
qed

theorem observe_twice_one_binding_witness:
  "inv init
   \<and> (\<exists>s1. observe init (Elem 1) ''click'' (Fn 7) = Inr (s1, Elem 1)
        \<and> observe s1 (Elem 1) ''click'' (Fn 7) = Inr (s1, Elem 1)
        \<and> length (filter (\<lambda>b. b_handler b = Fn 7) (bucket s1 (Elem 1) ''click'')) = 1
        \<and> calls_of (invocations ''click'' (Fn 7)
             (run_listeners s1 page ((native_event ''click'' (Elem 1))\<lparr> ev_target := Elem 1 \<rparr>)
                (Elem 1)))
           = [\<lparr> c_fn = 7, c_this = Some (Element (Elem 1)),
                c_event = (native_event ''click'' (Elem 1))
                            \<lparr> ev_target := Elem 1, ev_currentTarget := Some (Elem 1) \<rparr>,
                c_element = None \<rparr>])"
proof -
  have ne: "''click'' \<noteq> ''element''" by simp
  from observe_effect [OF inv_init ne click_own [of init "Elem 1"], of "Fn 7"]
  obtain s1 where o: "observe init (Elem 1) ''click'' (Fn 7) = Inr (s1, Elem 1)" by auto
  note t = observe_twice_one_binding [OF inv_init o]
  note again = t [THEN conjunct2, THEN conjunct1]
  from t [THEN conjunct2, THEN conjunct2, THEN conjunct1]
  obtain b where "filter (\<lambda>b. b_handler b = Fn 7) (bucket s1 (Elem 1) ''click'') = [b]" ..
  then have one: "length (filter (\<lambda>b. b_handler b = Fn 7) (bucket s1 (Elem 1) ''click'')) = 1"
    by simp
  from t [THEN conjunct2, THEN conjunct2, THEN conjunct2, rule_format,
          OF carries_native [OF click_not_custom, of "Elem 1"], THEN conjunct2, of page]
  obtain r where "invocations ''click'' (Fn 7)
      (run_listeners s1 page ((native_event ''click'' (Elem 1))\<lparr> ev_target := Elem 1 \<rparr>) (Elem 1))
    = [\<lparr> at_node = Elem 1, by_responder = r,
         outcome = call_handler page (Fn 7) (Some (Element (Elem 1)))
                    ((native_event ''click'' (Elem 1))
                       \<lparr> ev_target := Elem 1, ev_currentTarget := Some (Elem 1) \<rparr>) \<rparr>]" ..
  then have "calls_of (invocations ''click'' (Fn 7)
             (run_listeners s1 page ((native_event ''click'' (Elem 1))\<lparr> ev_target := Elem 1 \<rparr>)
                (Elem 1)))
           = [\<lparr> c_fn = 7, c_this = Some (Element (Elem 1)),
                c_event = (native_event ''click'' (Elem 1))
                            \<lparr> ev_target := Elem 1, ev_currentTarget := Some (Elem 1) \<rparr>,
                c_element = None \<rparr>]"
    by (simp add: calls_of_def calls_def call_handler_def)
  with o again one have "\<exists>s1. observe init (Elem 1) ''click'' (Fn 7) = Inr (s1, Elem 1)
        \<and> observe s1 (Elem 1) ''click'' (Fn 7) = Inr (s1, Elem 1)
        \<and> length (filter (\<lambda>b. b_handler b = Fn 7) (bucket s1 (Elem 1) ''click'')) = 1
        \<and> calls_of (invocations ''click'' (Fn 7)
             (run_listeners s1 page ((native_event ''click'' (Elem 1))\<lparr> ev_target := Elem 1 \<rparr>)
                (Elem 1)))
           = [\<lparr> c_fn = 7, c_this = Some (Element (Elem 1)),
                c_event = (native_event ''click'' (Elem 1))
                            \<lparr> ev_target := Elem 1, ev_currentTarget := Some (Elem 1) \<rparr>,
                c_element = None \<rparr>]"
    by (intro exI [of _ s1] conjI)
  with inv_init show ?thesis by (rule conjI)
qed

text \<open>
  C7. \<open>observe\<close> only ever appends to the array of \<open>(N, E)\<close>: after \<open>observe(N, E, H1)\<close>
  the array is the old one, followed by an entry for \<open>H1\<close> unless it already held one;
  after \<open>observe(N, E, H2)\<close> with a handler \<open>H2\<close> that is not \<open>H1\<close> and was not registered
  before, the entry of \<open>H2\<close> is the last one, behind that of \<open>H1\<close>. When an event that
  carries \<open>E\<close> is dispatched on \<open>N\<close>, the responders made for \<open>E\<close> run in the order of
  the array, each calling the handler of its entry with \<open>N\<close> as context. The calls made
  are those of the handlers in the order of the array: a function is called once, with
  \<open>N\<close> as context and the event as argument, and a delegation handler makes the calls of
  its \<open>handleEvent\<close>. In particular, when \<open>H1\<close> and \<open>H2\<close> are functions, the calls made
  for the two of them are one call of \<open>H1\<close> followed by one call of \<open>H2\<close>.
\<close>

theorem handlers_run_in_registration_order:
  assumes "inv s" "observe s n en h1 = Inr (s1, x)" "observe s1 n en h2 = Inr (s2, y)"
    and "h1 \<noteq> h2" "h2 \<notin> b_handler ` set (bucket s n en)"
  shows "(\<exists>new. bucket s1 n en = bucket s n en @ new
              \<and> map b_handler new = (if h1 \<in> b_handler ` set (bucket s n en) then [] else [h1]))
     \<and> (\<exists>b2. bucket s2 n en = bucket s1 n en @ [b2] \<and> b_handler b2 = h2)
     \<and> h1 \<in> b_handler ` set (bucket s1 n en)
     \<and> (\<forall>p ev. carries ev en \<longrightarrow>
           (\<exists>rest. dispatchEvent s2 p n ev = run_listeners s2 p (ev\<lparr> ev_target := n \<rparr>) n @ rest)
           \<and> map (\<lambda>it. (r_handler (by_responder it), outcome it))
                 (ran_for en (run_listeners s2 p (ev\<lparr> ev_target := n \<rparr>) n))
               = map (\<lambda>b. (b_handler b,
                            call_handler p (b_handler b) (Some (Element n))
                              (ev\<lparr> ev_target := n, ev_currentTarget := Some n \<rparr>)))
                   (bucket s2 n en))
     \<and> (\<forall>p ev. carries ev en \<longrightarrow>
           calls_of (ran_for en (run_listeners s2 p (ev\<lparr> ev_target := n \<rparr>) n))
             = concat (map (\<lambda>h. case h of
                               Fn f \<Rightarrow>
                                 [\<lparr> c_fn = f, c_this = Some (Element n),
                                    c_event = ev\<lparr> ev_target := n, ev_currentTarget := Some n \<rparr>,
                                    c_element = None \<rparr>]
                             | HandleEvent obj \<Rightarrow>
                                 (case handleEvent p obj
                                         (ev\<lparr> ev_target := n, ev_currentTarget := Some n \<rparr>) of
                                    Inl e \<Rightarrow> [] | Inr cs \<Rightarrow> cs))
                           (map b_handler (bucket s2 n en))))
     \<and> (\<forall>p ev f1 f2. carries ev en \<and> h1 = Fn f1 \<and> h2 = Fn f2 \<longrightarrow>
           calls_of (filter (\<lambda>it. r_handler (by_responder it) = h1
                                 \<or> r_handler (by_responder it) = h2)
                       (ran_for en (run_listeners s2 p (ev\<lparr> ev_target := n \<rparr>) n)))
             = [\<lparr> c_fn = f1, c_this = Some (Element n),
                  c_event = ev\<lparr> ev_target := n, ev_currentTarget := Some n \<rparr>,
                  c_element = None \<rparr>,
                \<lparr> c_fn = f2, c_this = Some (Element n),
                  c_event = ev\<lparr> ev_target := n, ev_currentTarget := Some n \<rparr>,
                  c_element = None \<rparr>])"
proof -
  have en: "en \<noteq> ''element''" by (rule observe_returns(1) [OF assms(1,2)])
  have own: "objectPrototype en = None \<or> bucket s n en \<noteq> []"
    by (rule observe_returns(2) [OF assms(1,2)])
  from observe_effect [OF assms(1) en own, of h1] assms(2)
  have inv1: "inv s1"
    and b1: "if h1 \<in> b_handler ` set (bucket s n en) then s1 = s
         else bucket s1 n en = bucket s n en @
                [\<lparr> b_responder = createResponder (fresh s) (snd (getUniqueElementID s n)) en h1,
                   b_handler = h1 \<rparr>]"
    by (auto split: if_splits)
  have app1: "\<exists>new. bucket s1 n en = bucket s n en @ new
              \<and> map b_handler new = (if h1 \<in> b_handler ` set (bucket s n en) then [] else [h1])"
    using b1 by (auto split: if_splits)
  have mem1: "h1 \<in> b_handler ` set (bucket s1 n en)"
    using b1 by (auto split: if_splits)
  have notin: "h2 \<notin> b_handler ` set (bucket s1 n en)"
    using b1 assms(4,5) by (auto split: if_splits)
  have own1: "objectPrototype en = None \<or> bucket s1 n en \<noteq> []" using mem1 by auto
  from observe_effect [OF inv1 en own1, of h2] assms(3) notin
  have inv2: "inv s2"
    and b2: "bucket s2 n en = bucket s1 n en @
                [\<lparr> b_responder = createResponder (fresh s1) (snd (getUniqueElementID s1 n)) en h2,
                   b_handler = h2 \<rparr>]"
    by (auto split: if_splits)
  let ?b2 = "\<lparr> b_responder = createResponder (fresh s1) (snd (getUniqueElementID s1 n)) en h2,
               b_handler = h2 \<rparr>"
  have app2: "\<exists>b2. bucket s2 n en = bucket s1 n en @ [b2] \<and> b_handler b2 = h2"
    using b2 by simp
  have items: "ran_for en (run_listeners s2 p (ev\<lparr> ev_target := n \<rparr>) n)
      = map (\<lambda>b. \<lparr> at_node = n, by_responder = b_responder b,
                   outcome = call_handler p (b_handler b) (Some (Element n))
                               (ev\<lparr> ev_target := n, ev_currentTarget := Some n \<rparr>) \<rparr>)
            (bucket s2 n en)"
    if "carries ev en" for p ev
  proof -
    from that have c: "carries (ev\<lparr> ev_target := n \<rparr>) en" by (simp add: carries_def)
    show ?thesis unfolding run_listeners_for [OF inv2 c] by simp
  qed
  have run: "map (\<lambda>it. (r_handler (by_responder it), outcome it))
                 (ran_for en (run_listeners s2 p (ev\<lparr> ev_target := n \<rparr>) n))
               = map (\<lambda>b. (b_handler b,
                            call_handler p (b_handler b) (Some (Element n))
                              (ev\<lparr> ev_target := n, ev_currentTarget := Some n \<rparr>)))
                   (bucket s2 n en)"
    if "carries ev en" for p ev
    unfolding items [OF that]
    using inv_binding(2) [OF inv2] by (simp add: o_def)
  have disp: "\<forall>p ev. carries ev en \<longrightarrow>
           (\<exists>rest. dispatchEvent s2 p n ev = run_listeners s2 p (ev\<lparr> ev_target := n \<rparr>) n @ rest)
           \<and> map (\<lambda>it. (r_handler (by_responder it), outcome it))
                 (ran_for en (run_listeners s2 p (ev\<lparr> ev_target := n \<rparr>) n))
               = map (\<lambda>b. (b_handler b,
                            call_handler p (b_handler b) (Some (Element n))
                              (ev\<lparr> ev_target := n, ev_currentTarget := Some n \<rparr>)))
                   (bucket s2 n en)"
    using run dispatch_starts_at_target by auto
  have all_calls: "\<forall>p ev. carries ev en \<longrightarrow>
           calls_of (ran_for en (run_listeners s2 p (ev\<lparr> ev_target := n \<rparr>) n))
             = concat (map (\<lambda>h. case h of
                               Fn f \<Rightarrow>
                                 [\<lparr> c_fn = f, c_this = Some (Element n),
                                    c_event = ev\<lparr> ev_target := n, ev_currentTarget := Some n \<rparr>,
                                    c_element = None \<rparr>]
                             | HandleEvent obj \<Rightarrow>
                                 (case handleEvent p obj
                                         (ev\<lparr> ev_target := n, ev_currentTarget := Some n \<rparr>) of
                                    Inl e \<Rightarrow> [] | Inr cs \<Rightarrow> cs))
                           (map b_handler (bucket s2 n en)))"
  proof (intro allI impI)
    fix p ev assume c: "carries ev en"
    let ?ev = "ev\<lparr> ev_target := n, ev_currentTarget := Some n \<rparr>"
    have pt: "calls \<lparr> at_node = n, by_responder = b_responder b,
                  outcome = call_handler p (b_handler b) (Some (Element n)) ?ev \<rparr>
        = (case b_handler b of
             Fn f \<Rightarrow> [\<lparr> c_fn = f, c_this = Some (Element n), c_event = ?ev, c_element = None \<rparr>]
           | HandleEvent obj \<Rightarrow> (case handleEvent p obj ?ev of Inl e \<Rightarrow> [] | Inr cs \<Rightarrow> cs))"
      for b
      by (simp add: calls_def call_handler_def split: handler.splits)
    show "calls_of (ran_for en (run_listeners s2 p (ev\<lparr> ev_target := n \<rparr>) n))
             = concat (map (\<lambda>h. case h of
                               Fn f \<Rightarrow>
                                 [\<lparr> c_fn = f, c_this = Some (Element n), c_event = ?ev,
                                    c_element = None \<rparr>]
                             | HandleEvent obj \<Rightarrow>
                                 (case handleEvent p obj ?ev of Inl e \<Rightarrow> [] | Inr cs \<Rightarrow> cs))
                           (map b_handler (bucket s2 n en)))"
      unfolding items [OF c] calls_of_def map_map o_def pt ..
  qed
  have two_calls: "\<forall>p ev f1 f2. carries ev en \<and> h1 = Fn f1 \<and> h2 = Fn f2 \<longrightarrow>
           calls_of (filter (\<lambda>it. r_handler (by_responder it) = h1
                                 \<or> r_handler (by_responder it) = h2)
                       (ran_for en (run_listeners s2 p (ev\<lparr> ev_target := n \<rparr>) n)))
             = [\<lparr> c_fn = f1, c_this = Some (Element n),
                  c_event = ev\<lparr> ev_target := n, ev_currentTarget := Some n \<rparr>,
                  c_element = None \<rparr>,
                \<lparr> c_fn = f2, c_this = Some (Element n),
                  c_event = ev\<lparr> ev_target := n, ev_currentTarget := Some n \<rparr>,
                  c_element = None \<rparr>]"
  proof (intro allI impI)
    fix p ev f1 f2 assume a: "carries ev en \<and> h1 = Fn f1 \<and> h2 = Fn f2"
    let ?ev = "ev\<lparr> ev_target := n, ev_currentTarget := Some n \<rparr>"
    let ?F = "\<lambda>b. \<lparr> at_node = n, by_responder = b_responder b,
                   outcome = call_handler p (b_handler b) (Some (Element n)) ?ev \<rparr>"
    let ?P = "\<lambda>b. b_handler b = h1 \<or> b_handler b = h2"
    from mem1 obtain c1 where c1: "c1 \<in> set (bucket s1 n en)" "b_handler c1 = h1" by auto
    have d1: "distinct (map b_handler (bucket s1 n en))"
      by (rule inv_binding(4) [OF inv1 c1(1)])
    have "filter ?P (bucket s1 n en) = filter (\<lambda>b. b_handler b = h1) (bucket s1 n en)"
      using notin by (intro filter_cong) auto
    also have "\<dots> = [c1]"
      using filter_handler_unique [OF d1 c1(1)] c1(2) by simp
    finally have sel: "filter ?P (bucket s2 n en) = [c1, ?b2]"
      unfolding b2 by simp
    have "filter (\<lambda>it. r_handler (by_responder it) = h1 \<or> r_handler (by_responder it) = h2)
            (map ?F (bucket s2 n en))
        = map ?F (filter ?P (bucket s2 n en))"
      unfolding filter_map
      using inv_binding(2) [OF inv2]
      by (intro arg_cong [where f = "map ?F"] filter_cong) (auto simp: o_def)
    then have "filter (\<lambda>it. r_handler (by_responder it) = h1 \<or> r_handler (by_responder it) = h2)
            (ran_for en (run_listeners s2 p (ev\<lparr> ev_target := n \<rparr>) n))
        = [?F c1, ?F ?b2]"
      unfolding items [OF a [THEN conjunct1]] sel by simp
    then show "calls_of (filter (\<lambda>it. r_handler (by_responder it) = h1
                                 \<or> r_handler (by_responder it) = h2)
                       (ran_for en (run_listeners s2 p (ev\<lparr> ev_target := n \<rparr>) n)))
             = [\<lparr> c_fn = f1, c_this = Some (Element n), c_event = ?ev, c_element = None \<rparr>,
                \<lparr> c_fn = f2, c_this = Some (Element n), c_event = ?ev, c_element = None \<rparr>]"
      using a c1(2) by (simp add: calls_of_def calls_def call_handler_def)
  qed
  from app1 app2 mem1 disp all_calls two_calls show ?thesis by (intro conjI)
qed

theorem handlers_run_in_registration_order_witness:
  "inv init \<and> Fn 7 \<noteq> Fn 8 \<and> Fn 8 \<notin> b_handler ` set (bucket init (Elem 1) ''click'')
   \<and> (\<exists>s1 s2. observe init (Elem 1) ''click'' (Fn 7) = Inr (s1, Elem 1)
        \<and> observe s1 (Elem 1) ''click'' (Fn 8) = Inr (s2, Elem 1)
        \<and> map b_handler (bucket s2 (Elem 1) ''click'') = [Fn 7, Fn 8]
        \<and> calls_of
             (ran_for ''click''
               (run_listeners s2 page ((native_event ''click'' (Elem 1))\<lparr> ev_target := Elem 1 \<rparr>)
                  (Elem 1)))
           = [\<lparr> c_fn = 7, c_this = Some (Element (Elem 1)),
                c_event = (native_event ''click'' (Elem 1))
                            \<lparr> ev_target := Elem 1, ev_currentTarget := Some (Elem 1) \<rparr>,
                c_element = None \<rparr>,
              \<lparr> c_fn = 8, c_this = Some (Element (Elem 1)),
                c_event = (native_event ''click'' (Elem 1))
                            \<lparr> ev_target := Elem 1, ev_currentTarget := Some (Elem 1) \<rparr>,
                c_element = None \<rparr>]
        \<and> calls_of
             (filter (\<lambda>it. r_handler (by_responder it) = Fn 7 \<or> r_handler (by_responder it) = Fn 8)
               (ran_for ''click''
                 (run_listeners s2 page ((native_event ''click'' (Elem 1))\<lparr> ev_target := Elem 1 \<rparr>)
                    (Elem 1))))
           = [\<lparr> c_fn = 7, c_this = Some (Element (Elem 1)),
                c_event = (native_event ''click'' (Elem 1))
                            \<lparr> ev_target := Elem 1, ev_currentTarget := Some (Elem 1) \<rparr>,
                c_element = None \<rparr>,
              \<lparr> c_fn = 8, c_this = Some (Element (Elem 1)),
                c_event = (native_event ''click'' (Elem 1))
                            \<lparr> ev_target := Elem 1, ev_currentTarget := Some (Elem 1) \<rparr>,
                c_element = None \<rparr>])"
proof -
  let ?ev = "native_event ''click'' (Elem 1)"
  let ?ev' = "?ev\<lparr> ev_target := Elem 1, ev_currentTarget := Some (Elem 1) \<rparr>"
  let ?c7 = "\<lparr> c_fn = 7, c_this = Some (Element (Elem 1)), c_event = ?ev', c_element = None \<rparr>"
  let ?c8 = "\<lparr> c_fn = 8, c_this = Some (Element (Elem 1)), c_event = ?ev', c_element = None \<rparr>"
  have ne: "''click'' \<noteq> ''element''" by simp
  note b0 = bucket_init [of "Elem 1" "''click''"]
  from observe_effect [OF inv_init ne click_own [of init "Elem 1"], of "Fn 7"]
  obtain s1 where o1: "observe init (Elem 1) ''click'' (Fn 7) = Inr (s1, Elem 1)" and i1: "inv s1"
    by auto
  from observe_effect [OF i1 ne click_own [of s1 "Elem 1"], of "Fn 8"]
  obtain s2 where o2: "observe s1 (Elem 1) ''click'' (Fn 8) = Inr (s2, Elem 1)" by auto
  have d: "Fn 7 \<noteq> Fn 8" by simp
  have n8: "Fn 8 \<notin> b_handler ` set (bucket init (Elem 1) ''click'')"
    unfolding b0 by simp
  note t = handlers_run_in_registration_order [OF inv_init o1 o2 d n8]
  note c = carries_native [OF click_not_custom, of "Elem 1"]
  from t [THEN conjunct1] obtain new where new:
    "bucket s1 (Elem 1) ''click'' = bucket init (Elem 1) ''click'' @ new
     \<and> map b_handler new = (if Fn 7 \<in> b_handler ` set (bucket init (Elem 1) ''click'') then []
                          else [Fn 7])" ..
  from t [THEN conjunct2, THEN conjunct1] obtain b2 where b2:
    "bucket s2 (Elem 1) ''click'' = bucket s1 (Elem 1) ''click'' @ [b2] \<and> b_handler b2 = Fn 8" ..
  from new b2 have hs: "map b_handler (bucket s2 (Elem 1) ''click'') = [Fn 7, Fn 8]"
    unfolding b0 by simp
  have all_calls: "calls_of (ran_for ''click'' (run_listeners s2 page
        (?ev\<lparr> ev_target := Elem 1 \<rparr>) (Elem 1))) = [?c7, ?c8]"
    unfolding t [THEN conjunct2, THEN conjunct2, THEN conjunct2, THEN conjunct2, THEN conjunct1,
                 rule_format, OF c] hs
    by simp
  have both: "carries ?ev ''click'' \<and> Fn 7 = Fn 7 \<and> Fn 8 = Fn 8" using c by simp
  have two_calls: "calls_of
        (filter (\<lambda>it. r_handler (by_responder it) = Fn 7 \<or> r_handler (by_responder it) = Fn 8)
          (ran_for ''click'' (run_listeners s2 page (?ev\<lparr> ev_target := Elem 1 \<rparr>) (Elem 1))))
      = [?c7, ?c8]"
    by (rule t [THEN conjunct2, THEN conjunct2, THEN conjunct2, THEN conjunct2, THEN conjunct2,
                rule_format, OF both])
  from o1 o2 hs all_calls two_calls
  have "\<exists>s1 s2. observe init (Elem 1) ''click'' (Fn 7) = Inr (s1, Elem 1)
        \<and> observe s1 (Elem 1) ''click'' (Fn 8) = Inr (s2, Elem 1)
        \<and> map b_handler (bucket s2 (Elem 1) ''click'') = [Fn 7, Fn 8]
        \<and> calls_of (ran_for ''click'' (run_listeners s2 page
              (?ev\<lparr> ev_target := Elem 1 \<rparr>) (Elem 1))) = [?c7, ?c8]
        \<and> calls_of
             (filter (\<lambda>it. r_handler (by_responder it) = Fn 7 \<or> r_handler (by_responder it) = Fn 8)
               (ran_for ''click'' (run_listeners s2 page (?ev\<lparr> ev_target := Elem 1 \<rparr>) (Elem 1))))
           = [?c7, ?c8]"
    by (intro exI [of _ s1] exI [of _ s2] conjI)
  with inv_init d n8 show ?thesis by (intro conjI)
qed

section \<open>Sequences of observe and stopObserving\<close>

lemma agrees_init: "agrees init []"
  by (simp add: agrees_def bucket_init handlers_for_def)

text \<open>
  Event names that a registry inherits from \<open>Object.prototype\<close>, on a fresh page:
  \<open>observe\<close> throws, \<open>stopObserving\<close> throws when the member has a positive \<open>length\<close>,
  and with \<open>__proto__\<close> and a handler it completes and leaves \<open>{ element: ul }\<close> in the
  cache, as it does with the name \<open>element\<close>.
\<close>

lemma observe_toString_throws:
  "observe init (Elem 1) ''toString'' (Fn 7) = Inl TypeError"
  by (simp add: registry_defs observing_defs init_def)

lemma observe_constructor_throws:
  "observe init (Elem 1) ''constructor'' (Fn 7) = Inl TypeError"
  by (simp add: registry_defs observing_defs init_def)

lemma stopObserving_constructor_throws:
  "stopObserving page init (Elem 1) (Some ''constructor'') (Some (Fn 7)) = Inl TypeError
   \<and> stopObserving page init (Elem 1) (Some ''constructor'') None = Inl TypeError"
  by (simp add: registry_defs observing_defs init_def)

lemma stopObserving_proto_leaves_registry:
  "stopObserving page init (Elem 1) (Some ''__proto__'') (Some (Fn 7))
     = Inr (leftover_state, Elem 1)"
  by (simp add: registry_defs observing_defs init_def leftover_state_def)

text \<open>
  C2. The claim: after each call of a sequence of \<open>observe\<close> and \<open>stopObserving\<close>, the
  cache holds a registry for a node exactly when the node has an active binding. As
  stated this fails: \<open>stopObserving(ul, 'element', f7)\<close> on a fresh page completes and
  leaves the registry \<open>{ element: ul }\<close> in the cache, for a node that was never
  observed and has no listener.
\<close>

theorem entry_without_binding_counterexample:
  "run_ops page init [StopObserving (Elem 1) (Some ''element'') (Some (Fn 7))] = Inr leftover_state
   \<and> registry_of leftover_state (Elem 1) = Some [(''element'', Element (Elem 1))]
   \<and> listeners leftover_state (Elem 1) = []
   \<and> bucket leftover_state (Elem 1) ''click'' = []
   \<and> active [StopObserving (Elem 1) (Some ''element'') (Some (Fn 7))] = []"
  by (simp add: registry_defs observing_defs sample_defs leftover_state_def active_def
      registry_of_def uid_of_def bucket_def)

text \<open>
  C2, amended. Take a sequence of calls from a fresh page in which no event name is
  \<open>element\<close> or the name of a member of \<open>Object.prototype\<close> (\<open>toString\<close>,
  \<open>constructor\<close>, \<open>__proto__\<close> and the others of \<open>objectPrototype\<close>), and in which
  every \<open>stopObserving\<close> with a handler names its event. Then every call
  completes, and after each of them (after every prefix of the sequence) the cache holds
  a registry for a node if and only if the calls so far leave the node an active binding;
  this is also exactly when the host holds a listener for the node, and the array of each
  event name of the node holds the handlers of the active bindings, in the order of their
  registration. So the registry is made by the first \<open>observe\<close> and deleted with the last
  binding, whichever form of \<open>stopObserving\<close> removes it.
\<close>

theorem entry_iff_active_binding:
  assumes "\<forall>x \<in> set ops. op_ok x"
  shows "\<forall>k \<le> length ops. \<exists>s. run_ops p init (take k ops) = Inr s
     \<and> (\<forall>n. (registry_of s n \<noteq> None) = (\<exists>en h. (n, en, h) \<in> set (active (take k ops))))
     \<and> (\<forall>n. (registry_of s n \<noteq> None) = (listeners s n \<noteq> []))
     \<and> (\<forall>n en. map b_handler (bucket s n en) = handlers_for (active (take k ops)) n en)"
proof (intro allI impI)
  fix k assume "k \<le> length ops"
  have ok: "\<forall>x \<in> set (take k ops). op_ok x"
    using assms by (auto dest: in_set_takeD)
  from run_agrees [OF inv_init agrees_init ok, of p]
  obtain s where s: "run_ops p init (take k ops) = Inr s" "inv s"
    "agrees s (active (take k ops))"
    by (auto simp: active_def)
  have b: "map b_handler (bucket s n en) = handlers_for (active (take k ops)) n en" for n en
    using s(3) by (simp add: agrees_def)
  have e: "(registry_of s n \<noteq> None) = (\<exists>en h. (n, en, h) \<in> set (active (take k ops)))" for n
  proof -
    have "(\<exists>en. bucket s n en \<noteq> []) = (\<exists>en h. h \<in> set (handlers_for (active (take k ops)) n en))"
      unfolding b [symmetric] by (auto simp: neq_Nil_conv)
    then show ?thesis
      unfolding inv_entry_iff [OF s(2)] handlers_for_mem .
  qed
  show "\<exists>s. run_ops p init (take k ops) = Inr s
     \<and> (\<forall>n. (registry_of s n \<noteq> None) = (\<exists>en h. (n, en, h) \<in> set (active (take k ops))))
     \<and> (\<forall>n. (registry_of s n \<noteq> None) = (listeners s n \<noteq> []))
     \<and> (\<forall>n en. map b_handler (bucket s n en) = handlers_for (active (take k ops)) n en)"
    using s(1) e b inv_entry_iff_listeners [OF s(2)] by (intro exI [of _ s]) simp
qed

theorem entry_iff_active_binding_witness:
  "list_all op_ok session
   \<and> (\<exists>s. run_ops page init (take 3 session) = Inr s
         \<and> registry_of s (Elem 1) \<noteq> None \<and> listeners s (Elem 1) \<noteq> []
         \<and> map b_handler (bucket s (Elem 1) ''ns:foo'') = [Fn 8]
         \<and> registry_of s (Elem 2) = None)
   \<and> (\<exists>s. run_ops page init (take 4 session) = Inr s
         \<and> registry_of s (Elem 1) = None \<and> listeners s (Elem 1) = [])
   \<and> (\<exists>s. run_ops page init session = Inr s
         \<and> registry_of s (Elem 2) = None \<and> listeners s (Elem 2) = [])"
proof -
  have ok: "\<forall>x \<in> set session. op_ok x" by (simp add: session_def objectPrototype_def)
  note t = entry_iff_active_binding [OF ok, of page, rule_format]
  have a3: "active (take 3 session) = [(Elem 1, ''ns:foo'', Fn 8)]"
    by (simp add: active_def session_def)
  have a4: "active (take 4 session) = []"
    by (simp add: active_def session_def)
  have a6: "active (take 6 session) = []"
    by (simp add: active_def session_def)
  have l: "3 \<le> length session" "4 \<le> length session" "6 \<le> length session"
    by (simp_all add: session_def)
  from t [OF l(1)] obtain s3 where s3: "run_ops page init (take 3 session) = Inr s3"
    and e3: "\<forall>n. (registry_of s3 n \<noteq> None) = (\<exists>en h. (n, en, h) \<in> set (active (take 3 session)))"
    and l3: "\<forall>n. (registry_of s3 n \<noteq> None) = (listeners s3 n \<noteq> [])"
    and b3: "\<forall>n en. map b_handler (bucket s3 n en) = handlers_for (active (take 3 session)) n en"
    by auto
  from e3 [rule_format, of "Elem 1"] have r31: "registry_of s3 (Elem 1) \<noteq> None"
    unfolding a3 by simp
  from e3 [rule_format, of "Elem 2"] have r32: "registry_of s3 (Elem 2) = None"
    unfolding a3 by simp
  from l3 [rule_format, of "Elem 1"] r31 have l31: "listeners s3 (Elem 1) \<noteq> []" by simp
  from b3 [rule_format, of "Elem 1" "''ns:foo''"] have b31: "map b_handler (bucket s3 (Elem 1) ''ns:foo'') = [Fn 8]"
    unfolding a3 by (simp add: handlers_for_def)
  from t [OF l(2)] obtain s4 where s4: "run_ops page init (take 4 session) = Inr s4"
    and e4: "\<forall>n. (registry_of s4 n \<noteq> None) = (\<exists>en h. (n, en, h) \<in> set (active (take 4 session)))"
    and l4: "\<forall>n. (registry_of s4 n \<noteq> None) = (listeners s4 n \<noteq> [])"
    by auto
  from e4 [rule_format, of "Elem 1"] have r41: "registry_of s4 (Elem 1) = None"
    unfolding a4 by simp
  with l4 [rule_format, of "Elem 1"] have l41: "listeners s4 (Elem 1) = []" by simp
  from t [OF l(3)] obtain s6 where s6': "run_ops page init (take 6 session) = Inr s6"
    and e6: "\<forall>n. (registry_of s6 n \<noteq> None) = (\<exists>en h. (n, en, h) \<in> set (active (take 6 session)))"
    and l6: "\<forall>n. (registry_of s6 n \<noteq> None) = (listeners s6 n \<noteq> [])"
    by auto
  from s6' have s6: "run_ops page init session = Inr s6" by (simp add: session_def)
  from e6 [rule_format, of "Elem 2"] have r62: "registry_of s6 (Elem 2) = None"
    unfolding a6 by simp
  with l6 [rule_format, of "Elem 2"] have l62: "listeners s6 (Elem 2) = []" by simp
  have A: "list_all op_ok session" using ok by (simp add: list_all_iff)
  have B: "\<exists>s. run_ops page init (take 3 session) = Inr s
         \<and> registry_of s (Elem 1) \<noteq> None \<and> listeners s (Elem 1) \<noteq> []
         \<and> map b_handler (bucket s (Elem 1) ''ns:foo'') = [Fn 8]
         \<and> registry_of s (Elem 2) = None"
    using s3 r31 l31 b31 r32 by (intro exI [of _ s3] conjI)
  have C: "\<exists>s. run_ops page init (take 4 session) = Inr s
         \<and> registry_of s (Elem 1) = None \<and> listeners s (Elem 1) = []"
    using s4 r41 l41 by (intro exI [of _ s4] conjI)
  have D: "\<exists>s. run_ops page init session = Inr s
         \<and> registry_of s (Elem 2) = None \<and> listeners s (Elem 2) = []"
    using s6 r62 l62 by (intro exI [of _ s6] conjI)
  from A B C D show ?thesis by (intro conjI)
qed

section \<open>Responders and a missing registry\<close>

text \<open>
  C1. The claim: a responder that runs when \<open>Event.cache\<close> has no registry for its
  uid returns without calling the handler and without an exception. On the code:
  the native responder reads \<open>Event.cache[uid].element\<close> and throws a \<open>TypeError\<close>;
  the responder of a custom event whose name the event carries calls the handler,
  with \<open>undefined\<close> as context.
\<close>

theorem responder_without_registry:
  "invoke_responder (Some Map.empty) page (createResponder 0 1 ''click'' (Fn 7))
     (native_event ''click'' (Elem 1)) = Inl TypeError
   \<and> invoke_responder (Some Map.empty) page (createResponder 0 1 ''ns:foo'' (Fn 7))
       (custom_event ''ns:foo'' (Elem 1)) =
     Inr [\<lparr> c_fn = 7, c_this = None, c_event = custom_event ''ns:foo'' (Elem 1),
            c_element = None \<rparr>]"
  by (simp add: invoke_responder_def call_handler_def createResponder_def
        createResponderForCustomEvent_def isCustomEvent_def custom_event_def)

section \<open>Delegation\<close>

text \<open>
  C6. The claim: the callback of \<open>on(R, E, S, cb)\<close> runs with the nearest ancestor
  of the target that matches \<open>S\<close>, and does not run when no ancestor up to and
  including \<open>R\<close> matches. On the code, \<open>findElement\<close> walks on past \<open>R\<close>: with the
  handler on \<open>li\<close> and the selector \<open>ul\<close>, a click in the \<open>span\<close> inside \<open>li\<close> calls
  the callback with the \<open>ul\<close> that contains \<open>li\<close>, although neither \<open>span\<close> nor \<open>li\<close>
  matches.
\<close>

theorem delegation_matches_above_root:
  "on init (Elem 2) ''click'' (Css ''ul'') (Some 9) = Inr (delegating_state, list_handler)
   \<and> calls_of (dispatchEvent delegating_state page (Elem 3) (native_event ''click'' (Elem 3)))
       = [\<lparr> c_fn = 9, c_this = Some (Element (Elem 2)),
            c_event = (native_event ''click'' (Elem 3)) \<lparr> ev_currentTarget := Some (Elem 2) \<rparr>,
            c_element = Some (Elem 1) \<rparr>]
   \<and> ancestors page (Elem 3) = [Elem 2, Elem 1, Elem 0, Document]
   \<and> \<not> matches page (Elem 3) ''ul'' \<and> \<not> matches page (Elem 2) ''ul''"
  by (simp add: on_def start_def registry_defs observing_defs dispatch_defs sample_defs
        list_handler_def delegating_state_def eval_nat_numeral Let_def)

section \<open>on with a function in the place of the selector\<close>

text \<open>
  C9. Let the state satisfy the invariant and let \<open>on(R, E, F)\<close>, with the function \<open>F\<close>
  as third argument and no fourth, return a handler. The handler has no selector and \<open>F\<close>
  as callback, and it is registered for \<open>E\<close> on \<open>R\<close>. When an event that carries \<open>E\<close>
  reaches \<open>R\<close>, the responder of that entry runs \<open>handleEvent\<close> once. \<open>handleEvent\<close>
  filters by no selector: it calls \<open>F\<close> with \<open>R\<close> as context, with the event and with
  the element of the event as \<open>Event.element\<close> gives it, and makes no call only when
  there is no such element. That element is the target of the event, whenever the
  target is not a text node and the event is not one of those that \<open>Event.element\<close>
  moves to the current target (\<open>load\<close>, \<open>error\<close>, and \<open>click\<close> on a radio button).
\<close>

theorem on_function_in_selector_place:
  assumes "inv s" "on s R E (FnSelector F) None = Inr (s', h)"
  shows "h_element h = R \<and> h_eventName h = E \<and> h_selector h = NoSelector \<and> h_callback h = Some F
     \<and> HandleEvent h \<in> b_handler ` set (bucket s' R E)
     \<and> (\<forall>p ev. carries ev E \<longrightarrow>
           map outcome (invocations E (HandleEvent h) (run_listeners s' p ev R))
             = [handleEvent p h (ev\<lparr> ev_currentTarget := Some R \<rparr>)])
     \<and> (\<forall>p ev. handleEvent p h ev =
           (case element_impl p ev of
              None \<Rightarrow> Inr []
            | Some el \<Rightarrow> Inr [\<lparr> c_fn = F, c_this = Some (Element R), c_event = ev,
                                c_element = Some el \<rparr>]))
     \<and> (\<forall>p ev. nodeType p (ev_target ev) \<noteq> 3 \<and> ev_type ev \<noteq> ''load'' \<and> ev_type ev \<noteq> ''error''
              \<and> (ev_type ev = ''click'' \<longrightarrow>
                   (\<forall>ct. ev_currentTarget ev = Some ct \<longrightarrow> typeProp p ct \<noteq> Some ''radio''))
           \<longrightarrow> element_impl p ev = Some (ev_target ev))"
proof -
  let ?h = "\<lparr> h_oid = fresh s, h_element = R, h_eventName = E,
               h_selector = NoSelector, h_callback = Some F \<rparr>"
  let ?s0 = "s\<lparr> fresh := fresh s + 1 \<rparr>"
  let ?H = "HandleEvent h"
  have on_eq: "on s R E (FnSelector F) None =
      (case observe ?s0 R E (HandleEvent ?h) of Inl e \<Rightarrow> Inl e | Inr (s1, el) \<Rightarrow> Inr (s1, ?h))"
    by (simp add: on_def start_def Let_def)
  have inv0: "inv ?s0" by (rule inv_fresh [OF assms(1)]) simp
  from assms(2) have h: "h = ?h" and obs: "\<exists>el. observe ?s0 R E (HandleEvent ?h) = Inr (s', el)"
    unfolding on_eq by (auto split: sum.splits)
  from obs obtain el where obs': "observe ?s0 R E (HandleEvent ?h) = Inr (s', el)" ..
  have ne: "E \<noteq> ''element''" by (rule observe_returns(1) [OF inv0 obs'])
  have own: "objectPrototype E = None \<or> bucket ?s0 R E \<noteq> []"
    by (rule observe_returns(2) [OF inv0 obs'])
  from observe_effect [OF inv0 ne own, of "HandleEvent ?h"] obs'
  have inv': "inv s'"
    and br: "if HandleEvent ?h \<in> b_handler ` set (bucket ?s0 R E) then s' = ?s0
         else bucket s' R E = bucket ?s0 R E @
                [\<lparr> b_responder = createResponder (fresh ?s0) (snd (getUniqueElementID ?s0 R)) E
                                    (HandleEvent ?h),
                   b_handler = HandleEvent ?h \<rparr>]"
    by (auto split: if_splits)
  have mem: "?H \<in> b_handler ` set (bucket s' R E)"
    unfolding h using br by (auto split: if_splits)
  then obtain b where b: "b \<in> set (bucket s' R E)" "b_handler b = ?H" by auto
  have one: "filter (\<lambda>c. b_handler c = ?H) (bucket s' R E) = [b]"
    using filter_handler_unique [OF inv_binding(4) [OF inv' b(1)] b(1)] b(2) by simp
  have run: "map outcome (invocations E ?H (run_listeners s' p ev R))
             = [handleEvent p h (ev\<lparr> ev_currentTarget := Some R \<rparr>)]"
    if "carries ev E" for p ev
    unfolding invocations_at [OF inv' that] one by (simp add: call_handler_def)
  have he: "handleEvent p h ev =
           (case element_impl p ev of
              None \<Rightarrow> Inr []
            | Some el \<Rightarrow> Inr [\<lparr> c_fn = F, c_this = Some (Element R), c_event = ev,
                                c_element = Some el \<rparr>])" for p ev
    unfolding h by (simp add: handleEvent_def findElement_def Let_def split: option.splits)
  have tgt: "element_impl p ev = Some (ev_target ev)"
    if "nodeType p (ev_target ev) \<noteq> 3 \<and> ev_type ev \<noteq> ''load'' \<and> ev_type ev \<noteq> ''error''
              \<and> (ev_type ev = ''click'' \<longrightarrow>
                   (\<forall>ct. ev_currentTarget ev = Some ct \<longrightarrow> typeProp p ct \<noteq> Some ''radio''))"
    for p ev
    using that by (auto simp: element_impl_def Let_def split: option.splits)
  have fields: "h_element h = R \<and> h_eventName h = E \<and> h_selector h = NoSelector
      \<and> h_callback h = Some F"
    unfolding h by simp
  from fields mem run he tgt show ?thesis by (intro conjI allI impI) auto
qed

theorem on_function_in_selector_place_witness:
  "inv init
   \<and> on init (Elem 2) ''click'' (FnSelector 9) None = Inr (plain_state, plain_handler)
   \<and> h_selector plain_handler = NoSelector \<and> h_callback plain_handler = Some 9
   \<and> map outcome (invocations ''click'' (HandleEvent plain_handler)
        (run_listeners plain_state page (native_event ''click'' (Elem 3)) (Elem 2)))
       = [Inr [\<lparr> c_fn = 9, c_this = Some (Element (Elem 2)),
                 c_event = (native_event ''click'' (Elem 3)) \<lparr> ev_currentTarget := Some (Elem 2) \<rparr>,
                 c_element = Some (Elem 3) \<rparr>]]"
proof -
  let ?ev = "native_event ''click'' (Elem 3)"
  let ?ev' = "?ev\<lparr> ev_currentTarget := Some (Elem 2) \<rparr>"
  have o: "on init (Elem 2) ''click'' (FnSelector 9) None = Inr (plain_state, plain_handler)"
    by (simp add: on_def start_def registry_defs observing_defs init_def
          plain_handler_def plain_state_def eval_nat_numeral)
  note t = on_function_in_selector_place [OF inv_init o]
  have sel: "h_selector plain_handler = NoSelector \<and> h_callback plain_handler = Some 9"
    using t by simp
  have c: "carries ?ev ''click''" by (rule carries_native [OF click_not_custom])
  have run: "map outcome (invocations ''click'' (HandleEvent plain_handler)
        (run_listeners plain_state page ?ev (Elem 2)))
       = [handleEvent page plain_handler ?ev']"
    by (rule t [THEN conjunct2, THEN conjunct2, THEN conjunct2, THEN conjunct2, THEN conjunct2,
                THEN conjunct1, rule_format, OF c])
  have el: "element_impl page ?ev' = Some (ev_target ?ev')"
  proof (rule t [THEN conjunct2, THEN conjunct2, THEN conjunct2, THEN conjunct2, THEN conjunct2,
                THEN conjunct2, THEN conjunct2, rule_format])
    show "nodeType page (ev_target ?ev') \<noteq> 3 \<and> ev_type ?ev' \<noteq> ''load'' \<and> ev_type ?ev' \<noteq> ''error''
              \<and> (ev_type ?ev' = ''click'' \<longrightarrow>
                   (\<forall>ct. ev_currentTarget ?ev' = Some ct \<longrightarrow> typeProp page ct \<noteq> Some ''radio''))"
      by (simp add: page_def native_event_def)
  qed
  have he: "handleEvent page plain_handler ?ev' =
       Inr [\<lparr> c_fn = 9, c_this = Some (Element (Elem 2)), c_event = ?ev',
              c_element = Some (Elem 3) \<rparr>]"
    unfolding t [THEN conjunct2, THEN conjunct2, THEN conjunct2, THEN conjunct2, THEN conjunct2,
                THEN conjunct2, THEN conjunct1, rule_format] el
    by (simp add: native_event_def)
  from inv_init o sel run [unfolded he] show ?thesis by (intro conjI) simp_all
qed

section \<open>fire\<close>

text \<open>
  C8, as the claim states it, fails for a payload that is falsy: \<open>fire\<close> with the memo
  \<open>0\<close> stamps the event with an empty object, not with \<open>0\<close>.
\<close>

theorem fire_memo_zero_counterexample:
  "fire page init (Elem 1) ''ns:foo'' (JNum 0) None =
     Inr (init, custom_event ''ns:foo'' (Elem 1), [])
   \<and> ev_memo (custom_event ''ns:foo'' (Elem 1)) \<noteq> JNum 0"
  by (simp add: dispatch_defs sample_defs)

text \<open>
  C8, amended. On a host with \<open>document.createEvent\<close>, \<open>fire\<close> returns the event it
  built together with the unchanged state and the record of the finished dispatch.
  The event has the carrier type \<open>dataavailable\<close>, carries the event name as its tag,
  carries the memo if the memo is truthy and an empty object otherwise, bubbles unless
  \<open>bubble\<close> was given as false, and was dispatched on the element (on the document's
  top element when the element is the document and the document cannot dispatch).
  Every responder attached for the carrier type on a node of the propagation path has
  run when \<open>fire\<close> returns.
\<close>

theorem fire_builds_and_dispatches:
  assumes "createEvent p"
  shows "\<exists>ev. fire p s element eventName memo bubble =
                Inr (s, ev, dispatchEvent s p (ev_target ev) ev)
     \<and> ev_type ev = ''dataavailable'' \<and> ev_eventName ev = Some eventName
     \<and> ev_memo ev = (if truthy memo then memo else JEmptyObject)
     \<and> ev_bubbles ev = (case bubble of None \<Rightarrow> True | Some b \<Rightarrow> b)
     \<and> ev_target ev = (if element = Document \<and> \<not> documentDispatchEvent p
                        then documentElement p else element)
     \<and> (\<forall>n r. n \<in> set (propagation_path p ev (ev_target ev))
              \<and> (''dataavailable'', r) \<in> set (listeners s n)
            \<longrightarrow> (\<exists>it \<in> set (dispatchEvent s p (ev_target ev) ev).
                   at_node it = n \<and> by_responder it = r))"
proof -
  let ?tgt = "getFireTarget p element"
  let ?ev = "\<lparr> ev_type = ''dataavailable'', ev_target = ?tgt, ev_currentTarget = None,
               ev_bubbles = (case bubble of None \<Rightarrow> True | Some b \<Rightarrow> b), ev_cancelable = True,
               ev_eventName = Some eventName,
               ev_memo = (if truthy memo then memo else JEmptyObject) \<rparr>"
  have f: "fire p s element eventName memo bubble = Inr (s, ?ev, dispatchEvent s p ?tgt ?ev)"
    using assms by (simp add: fire_def Let_def)
  have t: "?tgt = (if element = Document \<and> \<not> documentDispatchEvent p
                   then documentElement p else element)"
    using assms by (simp add: getFireTarget_def)
  have run: "\<exists>it \<in> set (dispatchEvent s p ?tgt ?ev). at_node it = n \<and> by_responder it = r"
    if "n \<in> set (propagation_path p ?ev ?tgt)" "(''dataavailable'', r) \<in> set (listeners s n)"
    for n r
    using that by (force simp: dispatchEvent_def run_listeners_def)
  show ?thesis
    by (rule exI [of _ ?ev]) (use f t run in auto)
qed

theorem fire_builds_and_dispatches_witness:
  "createEvent page \<and>
   (\<exists>ev. fire page carrier_state (Elem 1) ''ns:foo'' (JObj 3) (Some False) =
           Inr (carrier_state, ev, dispatchEvent carrier_state page (Elem 1) ev)
      \<and> ev_type ev = ''dataavailable'' \<and> ev_eventName ev = Some ''ns:foo''
      \<and> ev_memo ev = JObj 3 \<and> ev_bubbles ev = False \<and> ev_target ev = Elem 1
      \<and> NativeResponder 0 1 ''dataavailable'' (Fn 7)
          \<in> by_responder ` set (dispatchEvent carrier_state page (Elem 1) ev))"
proof -
  have c: "createEvent page" by (simp add: page_def)
  from fire_builds_and_dispatches [OF c, of carrier_state "Elem 1" "''ns:foo''" "JObj 3" "Some False"]
  obtain ev where ev: "fire page carrier_state (Elem 1) ''ns:foo'' (JObj 3) (Some False) =
                Inr (carrier_state, ev, dispatchEvent carrier_state page (ev_target ev) ev)"
     "ev_type ev = ''dataavailable''" "ev_eventName ev = Some ''ns:foo''"
     "ev_memo ev = JObj 3" "ev_bubbles ev = False" "ev_target ev = Elem 1"
     "\<forall>n r. n \<in> set (propagation_path page ev (ev_target ev))
              \<and> (''dataavailable'', r) \<in> set (listeners carrier_state n)
            \<longrightarrow> (\<exists>it \<in> set (dispatchEvent carrier_state page (ev_target ev) ev).
                   at_node it = n \<and> by_responder it = r)"
    by auto
  have "Elem 1 \<in> set (propagation_path page ev (ev_target ev))"
    using ev(5,6) by (simp add: propagation_path_def)
  moreover have "(''dataavailable'', NativeResponder 0 1 ''dataavailable'' (Fn 7))
      \<in> set (listeners carrier_state (Elem 1))"
    by (simp add: carrier_state_def)
  ultimately have "NativeResponder 0 1 ''dataavailable'' (Fn 7)
          \<in> by_responder ` set (dispatchEvent carrier_state page (Elem 1) ev)"
    using ev(7) ev(6) by force
  with c ev show ?thesis by auto
qed

text \<open>
  C10. \<open>fire\<close> leaves \<open>Event.cache\<close>, the uid counter, the uids of the nodes and the
  attached listeners as they were: every node has the same entries for every event
  name before and after. (Handlers are opaque here, so none of them calls \<open>observe\<close>
  or \<open>stopObserving\<close>.)
\<close>

theorem fire_leaves_registry:
  assumes "fire p s element eventName memo bubble = Inr (s', ev, tr)"
  shows "cache s' = cache s \<and> UID s' = UID s \<and> prototypeUID s' = prototypeUID s
     \<and> listeners s' = listeners s \<and> (\<forall>n en. bucket s' n en = bucket s n en)"
  using assms by (auto simp: fire_def Let_def split: if_splits)

theorem fire_leaves_registry_witness:
  "fire page carrier_state (Elem 1) ''ns:foo'' (JObj 3) None =
     Inr (carrier_state,
          (custom_event ''ns:foo'' (Elem 1))\<lparr> ev_memo := JObj 3 \<rparr>,
          dispatchEvent carrier_state page (Elem 1)
            ((custom_event ''ns:foo'' (Elem 1))\<lparr> ev_memo := JObj 3 \<rparr>))
   \<and> cache carrier_state 1 \<noteq> None
   \<and> bucket carrier_state (Elem 1) ''dataavailable'' =
       [\<lparr> b_responder = NativeResponder 0 1 ''dataavailable'' (Fn 7), b_handler = Fn 7 \<rparr>]"
proof -
  have f: "fire page carrier_state (Elem 1) ''ns:foo'' (JObj 3) None =
     Inr (carrier_state,
          (custom_event ''ns:foo'' (Elem 1))\<lparr> ev_memo := JObj 3 \<rparr>,
          dispatchEvent carrier_state page (Elem 1)
            ((custom_event ''ns:foo'' (Elem 1))\<lparr> ev_memo := JObj 3 \<rparr>))"
  proof -
    have "createEvent page" by (simp add: page_def)
    then show ?thesis by (simp add: fire_def getFireTarget_def custom_event_def Let_def)
  qed
  from fire_leaves_registry [OF f] f show ?thesis
    by (simp add: carrier_state_def bucket_def registry_of_def uid_of_def)
qed

subsection \<open>Which handlers a fired event reaches\<close>

lemma crowded_run:
  "run_ops page init [Observe (Elem 1) ''ns:foo'' (Fn 7), Observe (Elem 1) ''ns:bar'' (Fn 8),
      Observe (Elem 1) ''dataavailable'' (Fn 9)] = Inr crowded_state"
  by (simp add: registry_defs observing_defs init_def crowded_state_def fun_eq_iff)

lemma inv_crowded: "inv crowded_state"
proof -
  have "\<forall>x \<in> set [Observe (Elem 1) ''ns:foo'' (Fn 7), Observe (Elem 1) ''ns:bar'' (Fn 8),
      Observe (Elem 1) ''dataavailable'' (Fn 9)]. op_ok x" by (simp add: objectPrototype_def)
  from run_agrees [OF inv_init agrees_init this, of page] show ?thesis
    unfolding crowded_run by simp
qed

text \<open>
  C5. The claim: \<open>fire(N, 'ns:foo', payload)\<close> calls the handlers registered for
  \<open>ns:foo\<close> and neither those of another custom name nor those registered for the native
  carrier type. The second part fails for the carrier: the responder of a native event
  name does not look at the tag of the event, so a handler that \<open>observe\<close> registered
  for \<open>dataavailable\<close> is called when \<open>ns:foo\<close> is fired.
\<close>

theorem fire_reaches_carrier_handler_counterexample:
  "observe init (Elem 1) ''dataavailable'' (Fn 7) = Inr (carrier_state, Elem 1)
   \<and> fire page carrier_state (Elem 1) ''ns:foo'' JUndefined None =
       Inr (carrier_state, custom_event ''ns:foo'' (Elem 1),
            [\<lparr> at_node = Elem 1, by_responder = NativeResponder 0 1 ''dataavailable'' (Fn 7),
               outcome = Inr [\<lparr> c_fn = 7, c_this = Some (Element (Elem 1)),
                                c_event = (custom_event ''ns:foo'' (Elem 1))
                                            \<lparr> ev_currentTarget := Some (Elem 1) \<rparr>,
                                c_element = None \<rparr>] \<rparr>])"
  by (simp add: registry_defs observing_defs dispatch_defs sample_defs carrier_state_def)

text \<open>
  C5, amended. Let the state satisfy the invariant and let \<open>fire\<close> of a custom event
  name \<open>E\<close> return. The record of the dispatch is made of the listener runs on the nodes
  of the propagation path. On every node and for every event name \<open>k\<close>, the listeners
  that run for \<open>k\<close> are the responders of the entries registered for \<open>k\<close> on that node,
  in order, and only for a custom \<open>k\<close> or for \<open>dataavailable\<close>; the responders of \<open>E\<close>
  and those of \<open>dataavailable\<close> call their handlers with the node as context, and the
  responders of every other custom name return without a call. So a listener run that
  made a call belongs to \<open>E\<close> or to \<open>dataavailable\<close>.
\<close>

theorem fire_runs_its_name_and_the_carrier:
  assumes "inv s" "isCustomEvent en" "fire p s n en memo bubble = Inr (s', ev, tr)"
  shows "tr = concat (map (run_listeners s p ev) (propagation_path p ev (ev_target ev)))
     \<and> (\<forall>m k. ran_for k (run_listeners s p ev m) =
          map (\<lambda>b. \<lparr> at_node = m, by_responder = b_responder b,
                      outcome = (if k = en \<or> k = ''dataavailable''
                                 then call_handler p (b_handler b) (Some (Element m))
                                        (ev\<lparr> ev_currentTarget := Some m \<rparr>)
                                 else Inr []) \<rparr>)
              (if isCustomEvent k \<or> k = ''dataavailable'' then bucket s m k else []))
     \<and> (\<forall>it \<in> set tr. calls it \<noteq> [] \<longrightarrow>
          r_eventName (by_responder it) = en \<or> r_eventName (by_responder it) = ''dataavailable'')"
proof -
  from assms(3) have ce: "createEvent p"
    by (auto simp: fire_def split: if_splits)
  from assms(3) have ev: "ev_type ev = ''dataavailable''" "ev_eventName ev = Some en"
    and tr0: "tr = dispatchEvent s p (ev_target ev) ev"
    using ce by (auto simp: fire_def Let_def)
  have same: "ev\<lparr> ev_target := ev_target ev \<rparr> = ev" by simp
  have tr: "tr = concat (map (run_listeners s p ev) (propagation_path p ev (ev_target ev)))"
    unfolding tr0 dispatchEvent_def same ..
  have nc: "\<not> isCustomEvent ''dataavailable''" by (simp add: isCustomEvent_def)
  have per: "ran_for k (run_listeners s p ev m) =
          map (\<lambda>b. \<lparr> at_node = m, by_responder = b_responder b,
                      outcome = (if k = en \<or> k = ''dataavailable''
                                 then call_handler p (b_handler b) (Some (Element m))
                                        (ev\<lparr> ev_currentTarget := Some m \<rparr>)
                                 else Inr []) \<rparr>)
              (if isCustomEvent k \<or> k = ''dataavailable'' then bucket s m k else [])" for m k
  proof -
    let ?ev = "ev\<lparr> ev_currentTarget := Some m \<rparr>"
    have ty: "(ev_type ev = actualEventName k) = (isCustomEvent k \<or> k = ''dataavailable'')"
      using ev(1) by (auto simp: actualEventName_def)
    show ?thesis
    proof (cases "k = en \<or> k = ''dataavailable''")
      case True
      then have c: "carries ?ev k"
        using ev assms(2) nc by (auto simp: carries_def actualEventName_def)
      have "invoke_responder (Some (cache s)) p (b_responder b) ?ev
              = call_handler p (b_handler b) (Some (Element m)) ?ev"
        if "b \<in> set (bucket s m k)" for b
        by (rule inv_responder_runs [OF assms(1) that c])
      then show ?thesis
        unfolding run_listeners_by_name [OF assms(1)] ty using True by auto
    next
      case False
      have "invoke_responder (Some (cache s)) p (b_responder b) ?ev = Inr []"
        if "b \<in> set (bucket s m k)" "isCustomEvent k" for b
      proof (rule inv_responder_silent [OF assms(1) that])
        show "ev_eventName ?ev \<noteq> Some k" using ev(2) False by auto
      qed
      then show ?thesis
        unfolding run_listeners_by_name [OF assms(1)] ty using False by auto
    qed
  qed
  have quiet: "r_eventName (by_responder it) = en \<or> r_eventName (by_responder it) = ''dataavailable''"
    if "it \<in> set tr" "calls it \<noteq> []" for it
  proof (rule ccontr)
    assume other: "\<not> ?thesis"
    let ?k = "r_eventName (by_responder it)"
    from that(1) obtain m where "it \<in> set (run_listeners s p ev m)"
      unfolding tr by auto
    then have "it \<in> set (ran_for ?k (run_listeners s p ev m))"
      by (simp add: ran_for_def)
    then have "outcome it = Inr []"
      unfolding per using other by auto
    with that(2) show False by (simp add: calls_def)
  qed
  from tr per quiet show ?thesis by blast
qed

theorem fire_runs_its_name_and_the_carrier_witness:
  "inv crowded_state \<and> isCustomEvent ''ns:foo''
   \<and> fire page crowded_state (Elem 1) ''ns:foo'' JUndefined None =
       Inr (crowded_state, custom_event ''ns:foo'' (Elem 1),
            dispatchEvent crowded_state page (Elem 1) (custom_event ''ns:foo'' (Elem 1)))
   \<and> map (\<lambda>it. (r_handler (by_responder it), calls it))
       (ran_for ''ns:foo'' (run_listeners crowded_state page (custom_event ''ns:foo'' (Elem 1)) (Elem 1)))
       = [(Fn 7, [\<lparr> c_fn = 7, c_this = Some (Element (Elem 1)),
                    c_event = (custom_event ''ns:foo'' (Elem 1))
                                \<lparr> ev_currentTarget := Some (Elem 1) \<rparr>,
                    c_element = None \<rparr>])]
   \<and> map (\<lambda>it. (r_handler (by_responder it), calls it))
       (ran_for ''ns:bar'' (run_listeners crowded_state page (custom_event ''ns:foo'' (Elem 1)) (Elem 1)))
       = [(Fn 8, [])]
   \<and> map (\<lambda>it. (r_handler (by_responder it), calls it))
       (ran_for ''dataavailable''
          (run_listeners crowded_state page (custom_event ''ns:foo'' (Elem 1)) (Elem 1)))
       = [(Fn 9, [\<lparr> c_fn = 9, c_this = Some (Element (Elem 1)),
                    c_event = (custom_event ''ns:foo'' (Elem 1))
                                \<lparr> ev_currentTarget := Some (Elem 1) \<rparr>,
                    c_element = None \<rparr>])]"
proof -
  let ?ev = "custom_event ''ns:foo'' (Elem 1)"
  have c: "isCustomEvent ''ns:foo''" by (simp add: isCustomEvent_def)
  have f: "fire page crowded_state (Elem 1) ''ns:foo'' JUndefined None =
     Inr (crowded_state, ?ev, dispatchEvent crowded_state page (Elem 1) ?ev)"
  proof -
    have "createEvent page" by (simp add: page_def)
    then show ?thesis by (simp add: fire_def getFireTarget_def custom_event_def Let_def)
  qed
  note t = fire_runs_its_name_and_the_carrier [OF inv_crowded c f, THEN conjunct2,
             THEN conjunct1, rule_format]
  have b1: "bucket crowded_state (Elem 1) ''ns:foo'' =
      [\<lparr> b_responder = CustomResponder 0 1 ''ns:foo'' (Fn 7), b_handler = Fn 7 \<rparr>]"
    by (simp add: crowded_state_def bucket_def registry_of_def uid_of_def)
  have b2: "bucket crowded_state (Elem 1) ''ns:bar'' =
      [\<lparr> b_responder = CustomResponder 1 1 ''ns:bar'' (Fn 8), b_handler = Fn 8 \<rparr>]"
    by (simp add: crowded_state_def bucket_def registry_of_def uid_of_def)
  have b3: "bucket crowded_state (Elem 1) ''dataavailable'' =
      [\<lparr> b_responder = NativeResponder 2 1 ''dataavailable'' (Fn 9), b_handler = Fn 9 \<rparr>]"
    by (simp add: crowded_state_def bucket_def registry_of_def uid_of_def)
  have r1: "map (\<lambda>it. (r_handler (by_responder it), calls it))
       (ran_for ''ns:foo'' (run_listeners crowded_state page ?ev (Elem 1)))
       = [(Fn 7, [\<lparr> c_fn = 7, c_this = Some (Element (Elem 1)),
                    c_event = ?ev\<lparr> ev_currentTarget := Some (Elem 1) \<rparr>,
                    c_element = None \<rparr>])]"
    unfolding t [of "''ns:foo''" "Elem 1"] b1
    by (simp add: isCustomEvent_def calls_def call_handler_def)
  have r2: "map (\<lambda>it. (r_handler (by_responder it), calls it))
       (ran_for ''ns:bar'' (run_listeners crowded_state page ?ev (Elem 1)))
       = [(Fn 8, [])]"
    unfolding t [of "''ns:bar''" "Elem 1"] b2
    by (simp add: isCustomEvent_def calls_def call_handler_def)
  have r3: "map (\<lambda>it. (r_handler (by_responder it), calls it))
       (ran_for ''dataavailable'' (run_listeners crowded_state page ?ev (Elem 1)))
       = [(Fn 9, [\<lparr> c_fn = 9, c_this = Some (Element (Elem 1)),
                    c_event = ?ev\<lparr> ev_currentTarget := Some (Elem 1) \<rparr>,
                    c_element = None \<rparr>])]"
    unfolding t [of "''dataavailable''" "Elem 1"] b3
    by (simp add: isCustomEvent_def calls_def call_handler_def)
  from inv_crowded c f r1 r2 r3 show ?thesis by (intro conjI)
qed

end
